theory Spec2Isabelle
  imports Main "HOL-Library.Sublist"
begin

section \<open>Strings and paths\<close>

text \<open>
  The program is \<^verbatim>\<open>rename_files.py\<close>: a recursive bulk renamer
  (\<^verbatim>\<open>rename_files\<close>) behind a small prompt shell (\<^verbatim>\<open>main\<close>).
  Python strings are modelled as \<^typ>\<open>string\<close>, one \<^typ>\<open>char\<close> per code point
  (code points up to U+00FF). Paths follow \<^verbatim>\<open>posixpath\<close>, the
  \<^verbatim>\<open>os.path\<close> of a POSIX system, whose separator is \<^verbatim>\<open>/\<close>.
\<close>

type_synonym path = string

text \<open>
  \<^verbatim>\<open>find_char in filename\<close> is substring containment, which is
  \<^term>\<open>sublist find_char filename\<close>.

  \<^verbatim>\<open>filename.replace(find_char, replace_char)\<close>: for a non-empty search string
  CPython scans from the left, and at the first position where the search string starts it
  emits the replacement and continues behind the occurrence. For the empty search string it
  interleaves: the replacement goes in front of every character and behind the last one.
\<close>

function replace_scan :: "string \<Rightarrow> string \<Rightarrow> string \<Rightarrow> string" where
  "replace_scan old new [] = []"
| "replace_scan old new (c # cs) =
     (if old \<noteq> [] \<and> prefix old (c # cs)
      then new @ replace_scan old new (drop (length old) (c # cs))
      else c # replace_scan old new cs)"
  by pat_completeness auto
termination
  by (relation "measure (\<lambda>(old, new, s). length s)") auto

definition py_replace :: "string \<Rightarrow> string \<Rightarrow> string \<Rightarrow> string" where
  "py_replace s old new =
     (if old = [] then new @ concat (map (\<lambda>c. c # new) s) else replace_scan old new s)"

text \<open>
  The transformation in the words of the specification: every non-overlapping literal
  occurrence of the find token is replaced, scanning from the left. A name without an
  occurrence stays; otherwise the name splits as \<open>p @ f @ s\<close> where the shown occurrence
  is the leftmost one (none starts inside \<open>p @ butlast f\<close>), and the scan goes on in \<open>s\<close>.
\<close>

inductive replaced :: "string \<Rightarrow> string \<Rightarrow> string \<Rightarrow> string \<Rightarrow> bool" for f r where
  no_occurrence: "\<not> sublist f s \<Longrightarrow> replaced f r s s"
| leftmost: "\<not> sublist f (p @ butlast f) \<Longrightarrow> replaced f r s t \<Longrightarrow>
     replaced f r (p @ f @ s) (p @ r @ t)"

text \<open>\<^verbatim>\<open>posixpath.join(a, b)\<close>, \<^verbatim>\<open>posixpath.dirname\<close> and \<^verbatim>\<open>posixpath.basename\<close>.\<close>

definition join :: "path \<Rightarrow> path \<Rightarrow> path" where
  "join a b =
     (if prefix ''/'' b then b
      else if a = [] \<or> suffix ''/'' a then a @ b
      else a @ ''/'' @ b)"

definition dirname :: "path \<Rightarrow> path" where
  "dirname p =
     (let head = rev (dropWhile (\<lambda>c. c \<noteq> CHR ''/'') (rev p))
      in if head \<noteq> [] \<and> head \<noteq> replicate (length head) CHR ''/''
         then rev (dropWhile (\<lambda>c. c = CHR ''/'') (rev head))
         else head)"

definition basename :: "path \<Rightarrow> path" where
  "basename p = rev (takeWhile (\<lambda>c. c \<noteq> CHR ''/'') (rev p))"

text \<open>\<^verbatim>\<open>str.split(sep)\<close> for a one-character separator, and \<^verbatim>\<open>sep.join\<close>.\<close>

fun split_sep :: "char \<Rightarrow> string \<Rightarrow> string list" where
  "split_sep sep [] = [[]]"
| "split_sep sep (c # cs) =
     (if c = sep then [] # split_sep sep cs
      else (case split_sep sep cs of [] \<Rightarrow> [[c]] | w # ws \<Rightarrow> (c # w) # ws))"

fun sep_join :: "string \<Rightarrow> string list \<Rightarrow> string" where
  "sep_join sep [] = []"
| "sep_join sep [x] = x"
| "sep_join sep (x # y # ys) = x @ sep @ sep_join sep (y # ys)"

text \<open>
  \<^verbatim>\<open>posixpath.normpath\<close>: empty and \<^verbatim>\<open>.\<close> components are dropped, a
  \<^verbatim>\<open>..\<close> removes the component before it, and exactly two leading slashes are kept.
\<close>

definition norm_step :: "nat \<Rightarrow> string list \<Rightarrow> string \<Rightarrow> string list" where
  "norm_step initial_slashes new_comps name =
     (if name = [] \<or> name = ''.'' then new_comps
      else if name \<noteq> ''..'' \<or> (initial_slashes = 0 \<and> new_comps = [])
              \<or> (new_comps \<noteq> [] \<and> last new_comps = ''..'')
           then new_comps @ [name]
      else if new_comps \<noteq> [] then butlast new_comps
      else new_comps)"

definition normpath :: "path \<Rightarrow> path" where
  "normpath p =
     (if p = [] then ''.''
      else
        let initial_slashes =
              (if \<not> prefix ''/'' p then 0
               else if prefix ''//'' p \<and> \<not> prefix ''///'' p then 2 else (1::nat));
            comps = foldl (norm_step initial_slashes) [] (split_sep CHR ''/'' p);
            p' = replicate initial_slashes CHR ''/'' @ sep_join ''/'' comps
        in if p' = [] then ''.'' else p')"

text \<open>
  \<^verbatim>\<open>str.strip()\<close> removes leading and trailing whitespace, \<^verbatim>\<open>str.lower()\<close>
  lowers every cased character; both are given for the code points up to U+00FF.
\<close>

definition isspace :: "char \<Rightarrow> bool" where
  "isspace c = ((of_char c :: nat) \<in> {9, 10, 11, 12, 13, 28, 29, 30, 31, 32, 133, 160})"

definition py_strip :: "string \<Rightarrow> string" where
  "py_strip s = dropWhile isspace (rev (dropWhile isspace (rev s)))"

definition lower_char :: "char \<Rightarrow> char" where
  "lower_char c =
     (let n = (of_char c :: nat)
      in if (65 \<le> n \<and> n \<le> 90) \<or> (192 \<le> n \<and> n \<le> 222 \<and> n \<noteq> 215)
         then char_of (n + 32) else c)"

definition py_lower :: "string \<Rightarrow> string" where
  "py_lower s = map lower_char s"

text \<open>
  Lines 45 to 47 of \<^verbatim>\<open>main\<close>: a path that starts and ends with the same quote
  character (double or single) loses its first and its last character
  (\<^verbatim>\<open>target_path[1:-1]\<close>).
\<close>

definition unquote :: "string \<Rightarrow> string" where
  "unquote s =
     (if (prefix [CHR 0x22] s \<and> suffix [CHR 0x22] s) \<or> (prefix [CHR 0x27] s \<and> suffix [CHR 0x27] s)
      then drop 1 (butlast s) else s)"

section \<open>The operating system\<close>

text \<open>
  The calls the program makes into the operating system are parameters of the model, over
  any type \<open>'fs\<close> of file-system states:
  \<^item> \<^verbatim>\<open>os.path.isdir\<close>;
  \<^item> the directory scan inside \<^verbatim>\<open>os.walk\<close>, giving the names of the entries that are
    directories and the names of all other entries (the \<^verbatim>\<open>files\<close> of the source), or
    nothing when the scan fails, which \<^verbatim>\<open>os.walk\<close> passes over silently;
  \<^item> \<^verbatim>\<open>os.path.islink\<close>, by which \<^verbatim>\<open>os.walk\<close> decides not to enter a linked directory;
  \<^item> \<^verbatim>\<open>os.rename\<close>, giving the new state, or the message of the exception it raised;
  \<^item> \<^verbatim>\<open>os.getcwd\<close>.
\<close>

record 'fs os =
  isdir :: "'fs \<Rightarrow> path \<Rightarrow> bool"
  scandir :: "'fs \<Rightarrow> path \<Rightarrow> (string list \<times> string list) option"
  islink :: "'fs \<Rightarrow> path \<Rightarrow> bool"
  rename :: "'fs \<Rightarrow> path \<Rightarrow> path \<Rightarrow> string + 'fs"
  getcwd :: path

definition abspath :: "'fs os \<Rightarrow> path \<Rightarrow> path" where
  "abspath os p = normpath (if prefix ''/'' p then p else join (getcwd os) p)"

text \<open>
  What the program prints, one constructor per \<^verbatim>\<open>print\<close> (the four lines of the
  configuration are one event; a prompt is the text \<^verbatim>\<open>input\<close> shows).
\<close>

datatype event =
    Prompt string
  | Config path string string
  | Cancelled
  | DirMissing path
  | Renamed string string
  | RenameError string string
  | Finished nat

text \<open>
  The world the program acts on: the file system and the output, together with two logs kept
  for the statements below: every \<^verbatim>\<open>os.rename\<close> call with its two arguments and the
  message of its failure, if it failed, and every triple \<^verbatim>\<open>(root, dirs, files)\<close> that
  \<^verbatim>\<open>os.walk\<close> yielded.
\<close>

record 'fs world =
  fsys :: 'fs
  out :: "event list"
  calls :: "(path \<times> path \<times> string option) list"
  visited :: "(path \<times> string list \<times> string list) list"

definition print :: "event \<Rightarrow> 'fs world \<Rightarrow> 'fs world" where
  "print e w = w\<lparr>out := out w @ [e]\<rparr>"

section \<open>rename_files\<close>

text \<open>
  Lines 17 to 28, the loop over the \<^verbatim>\<open>files\<close> of one directory. The state is the world
  and the counter \<^verbatim>\<open>count\<close>. An exception of \<^verbatim>\<open>os.rename\<close> is caught, printed, and the
  loop goes on. Here no \<^verbatim>\<open>print\<close> raises; the next section has the function with the
  exceptions of \<^verbatim>\<open>print\<close>, and the two agree when none is raised.
\<close>

fun rename_in_dir ::
  "'fs os \<Rightarrow> string \<Rightarrow> string \<Rightarrow> path \<Rightarrow> string list \<Rightarrow> 'fs world \<times> nat \<Rightarrow> 'fs world \<times> nat" where
  "rename_in_dir os find_char replace_char root [] s = s"
| "rename_in_dir os find_char replace_char root (filename # files) (w, count) =
     rename_in_dir os find_char replace_char root files
       (if sublist find_char filename then
          let new_filename = py_replace filename find_char replace_char;
              old_path = join root filename;
              new_path = join root new_filename
          in (case rename os (fsys w) old_path new_path of
                Inr fs' \<Rightarrow>
                  (print (Renamed filename new_filename)
                     (w\<lparr>fsys := fs', calls := calls w @ [(old_path, new_path, None)]\<rparr>),
                   count + 1)
              | Inl e \<Rightarrow>
                  (print (RenameError filename e)
                     (w\<lparr>calls := calls w @ [(old_path, new_path, Some e)]\<rparr>),
                   count))
        else (w, count))"

text \<open>
  \<^verbatim>\<open>os.walk(target_dir)\<close>, top-down, with the body of the outer loop run at every yield.
  A directory is scanned when the walk reaches it, so it sees the renames made before; a scan
  that fails yields nothing. After the body has run for a directory, the walk enters, in
  their order, those of its \<^verbatim>\<open>dirs\<close> that are not symbolic links. The walk need not end
  on an arbitrary operating system, so it carries fuel: the number of directory levels it may
  descend (not a parameter of the source). \<open>None\<close> means the fuel ran out.
\<close>

primrec fold_option :: "('a \<Rightarrow> 's \<Rightarrow> 's option) \<Rightarrow> 'a list \<Rightarrow> 's \<Rightarrow> 's option" where
  "fold_option g [] s = Some s"
| "fold_option g (d # ds) s = (case g d s of None \<Rightarrow> None | Some s' \<Rightarrow> fold_option g ds s')"

primrec walk ::
  "nat \<Rightarrow> 'fs os \<Rightarrow> string \<Rightarrow> string \<Rightarrow> path \<Rightarrow> 'fs world \<times> nat \<Rightarrow> ('fs world \<times> nat) option" where
  "walk 0 os find_char replace_char root s = None"
| "walk (Suc n) os find_char replace_char root s =
     (case scandir os (fsys (fst s)) root of
        None \<Rightarrow> Some s
      | Some (dirs, files) \<Rightarrow>
          let s1 = rename_in_dir os find_char replace_char root files
                     (fst s\<lparr>visited := visited (fst s) @ [(root, dirs, files)]\<rparr>, snd s);
              walk_into = filter (\<lambda>d. \<not> islink os (fsys (fst s1)) (join root d)) dirs
          in fold_option (\<lambda>d. walk n os find_char replace_char (join root d)) walk_into s1)"

definition rename_files ::
  "'fs os \<Rightarrow> nat \<Rightarrow> path \<Rightarrow> string \<Rightarrow> string \<Rightarrow> 'fs \<Rightarrow> 'fs world option" where
  "rename_files os fuel target_dir find_char replace_char fs0 =
     (let w = \<lparr>fsys = fs0, out = [], calls = [], visited = []\<rparr>
      in if \<not> isdir os fs0 target_dir then Some (print (DirMissing target_dir) w)
         else (case walk fuel os find_char replace_char target_dir (w, 0) of
                 None \<Rightarrow> None
               | Some (w', count) \<Rightarrow> Some (print (Finished count) w')))"

section \<open>rename_files with the exceptions of print\<close>

text \<open>
  A \<^verbatim>\<open>print\<close> can raise (the text cannot be encoded for the standard output, the output
  is closed). A printer tells, from what has been printed and the event to print, whether the
  event is written (\<open>None\<close>) or which exception is raised (its message).
\<close>

type_synonym printer = "event list \<Rightarrow> event \<Rightarrow> string option"

text \<open>
  Lines 19 to 28 for one candidate file. In the \<^verbatim>\<open>try\<close> block stand the rename, the
  \<^verbatim>\<open>print\<close> of the success and the increment of the counter: an exception of the rename
  or of that \<^verbatim>\<open>print\<close> is caught, and then the counter is not incremented. The handler
  prints the name of the file and the message of the exception; this \<^verbatim>\<open>print\<close> stands
  outside every \<^verbatim>\<open>try\<close>, so an exception it raises leaves \<^verbatim>\<open>rename_files\<close>: the run
  is over. The result is then \<open>Inl\<close>, with the message and the world at that moment.
\<close>

definition rename_one ::
  "'fs os \<Rightarrow> printer \<Rightarrow> string \<Rightarrow> string \<Rightarrow> path \<Rightarrow> string \<Rightarrow> 'fs world \<times> nat
     \<Rightarrow> string \<times> 'fs world + 'fs world \<times> nat" where
  "rename_one os pr find_char replace_char root filename s =
     (let w = fst s; count = snd s;
          new_filename = py_replace filename find_char replace_char;
          old_path = join root filename;
          new_path = join root new_filename;
          tried =
            (case rename os (fsys w) old_path new_path of
               Inl e \<Rightarrow> (w\<lparr>calls := calls w @ [(old_path, new_path, Some e)]\<rparr>, Some e)
             | Inr fs' \<Rightarrow>
                 (w\<lparr>fsys := fs', calls := calls w @ [(old_path, new_path, None)]\<rparr>,
                  pr (out w) (Renamed filename new_filename)))
      in case snd tried of
           None \<Rightarrow> Inr (print (Renamed filename new_filename) (fst tried), count + 1)
         | Some e \<Rightarrow>
             (case pr (out w) (RenameError filename e) of
                None \<Rightarrow> Inr (print (RenameError filename e) (fst tried), count)
              | Some e' \<Rightarrow> Inl (e', fst tried)))"

text \<open>
  The loop over the \<^verbatim>\<open>files\<close> of one directory: it stops at the first exception that
  is not caught.
\<close>

fun rename_in_dir_raising ::
  "'fs os \<Rightarrow> printer \<Rightarrow> string \<Rightarrow> string \<Rightarrow> path \<Rightarrow> string list \<Rightarrow> 'fs world \<times> nat
     \<Rightarrow> string \<times> 'fs world + 'fs world \<times> nat" where
  "rename_in_dir_raising os pr find_char replace_char root [] s = Inr s"
| "rename_in_dir_raising os pr find_char replace_char root (filename # files) s =
     (if sublist find_char filename then
        (case rename_one os pr find_char replace_char root filename s of
           Inl a \<Rightarrow> Inl a
         | Inr s' \<Rightarrow> rename_in_dir_raising os pr find_char replace_char root files s')
      else rename_in_dir_raising os pr find_char replace_char root files s)"

text \<open>
  The walk of the section before, with the same fuel. An exception that leaves the body of
  the loop leaves the walk: no further directory is scanned.
\<close>

primrec fold_raising ::
  "('a \<Rightarrow> 's \<Rightarrow> ('e + 's) option) \<Rightarrow> 'a list \<Rightarrow> 's \<Rightarrow> ('e + 's) option" where
  "fold_raising g [] s = Some (Inr s)"
| "fold_raising g (d # ds) s =
     (case g d s of
        None \<Rightarrow> None
      | Some (Inl a) \<Rightarrow> Some (Inl a)
      | Some (Inr s') \<Rightarrow> fold_raising g ds s')"

primrec walk_raising ::
  "nat \<Rightarrow> 'fs os \<Rightarrow> printer \<Rightarrow> string \<Rightarrow> string \<Rightarrow> path \<Rightarrow> 'fs world \<times> nat
     \<Rightarrow> (string \<times> 'fs world + 'fs world \<times> nat) option" where
  "walk_raising 0 os pr find_char replace_char root s = None"
| "walk_raising (Suc n) os pr find_char replace_char root s =
     (case scandir os (fsys (fst s)) root of
        None \<Rightarrow> Some (Inr s)
      | Some (dirs, files) \<Rightarrow>
          (case rename_in_dir_raising os pr find_char replace_char root files
                  (fst s\<lparr>visited := visited (fst s) @ [(root, dirs, files)]\<rparr>, snd s) of
             Inl a \<Rightarrow> Some (Inl a)
           | Inr s1 \<Rightarrow>
               fold_raising (\<lambda>d. walk_raising n os pr find_char replace_char (join root d))
                 (filter (\<lambda>d. \<not> islink os (fsys (fst s1)) (join root d)) dirs) s1))"

text \<open>
  Lines 10 to 30. The two \<^verbatim>\<open>print\<close> calls outside the loop, of the missing directory and
  of the final count, stand in no \<^verbatim>\<open>try\<close> either.
\<close>

definition rename_files_raising ::
  "'fs os \<Rightarrow> printer \<Rightarrow> nat \<Rightarrow> path \<Rightarrow> string \<Rightarrow> string \<Rightarrow> 'fs
     \<Rightarrow> (string \<times> 'fs world + 'fs world) option" where
  "rename_files_raising os pr fuel target_dir find_char replace_char fs0 =
     (let w = \<lparr>fsys = fs0, out = [], calls = [], visited = []\<rparr>
      in if \<not> isdir os fs0 target_dir then
           (case pr (out w) (DirMissing target_dir) of
              None \<Rightarrow> Some (Inr (print (DirMissing target_dir) w))
            | Some e \<Rightarrow> Some (Inl (e, w)))
         else (case walk_raising fuel os pr find_char replace_char target_dir (w, 0) of
                 None \<Rightarrow> None
               | Some (Inl a) \<Rightarrow> Some (Inl a)
               | Some (Inr (w', count)) \<Rightarrow>
                   (case pr (out w') (Finished count) of
                      None \<Rightarrow> Some (Inr (print (Finished count) w'))
                    | Some e \<Rightarrow> Some (Inl (e, w')))))"

section \<open>main\<close>

text \<open>
  The parsed command line, and \<^verbatim>\<open>input\<close>: it shows the prompt and takes the next line of
  the standard input, or raises \<^verbatim>\<open>EOFError\<close> when there is none. The state of
  \<^verbatim>\<open>main\<close> is the unread input and what it has printed; the output of
  \<^verbatim>\<open>rename_files\<close> comes behind that.
\<close>

record args =
  arg_directory :: "string option"
  arg_find :: "string option"
  arg_replace :: "string option"

datatype error = EOFError

definition input :: "string \<Rightarrow> string list \<times> event list \<Rightarrow> error + string \<times> string list \<times> event list" where
  "input prompt io =
     (case fst io of
        [] \<Rightarrow> Inl EOFError
      | l # ls \<Rightarrow> Inr (l, ls, snd io @ [Prompt prompt]))"

definition bindE :: "'e + 'a \<Rightarrow> ('a \<Rightarrow> ('e + 'b) option) \<Rightarrow> ('e + 'b) option" where
  "bindE m k = (case m of Inl e \<Rightarrow> Some (Inl e) | Inr a \<Rightarrow> k a)"

definition main :: "'fs os \<Rightarrow> nat \<Rightarrow> args \<Rightarrow> string list \<Rightarrow> 'fs \<Rightarrow> (error + 'fs world) option" where
  "main os fuel a stdin fs0 =
     bindE (if arg_directory a = None \<or> arg_directory a = Some []
            then (case input ''Enter the directory to scan: '' (stdin, []) of
                    Inl e \<Rightarrow> Inl e
                  | Inr (l, io) \<Rightarrow> Inr (unquote (py_strip l), io))
            else Inr (the (arg_directory a), stdin, []))
     (\<lambda>(target_path0, io1).
        let target_path = abspath os target_path0 in
        bindE (case arg_find a of
                 None \<Rightarrow> input ''Enter character(s) to find (e.g. _): '' io1
               | Some f \<Rightarrow> Inr (f, io1))
        (\<lambda>(find_char, io2).
           bindE (case arg_replace a of
                    None \<Rightarrow> input ''Enter replacement character(s) (e.g. space): '' io2
                  | Some r \<Rightarrow> Inr (r, io2))
           (\<lambda>(replace_char, io3).
              bindE (input (CHR 0x0A # ''Proceed? (y/n): '')
                       (fst io3, snd io3 @ [Config target_path find_char replace_char]))
              (\<lambda>(confirm, io4).
                 if py_lower confirm \<noteq> ''y''
                 then Some (Inr \<lparr>fsys = fs0, out = snd io4 @ [Cancelled], calls = [], visited = []\<rparr>)
                 else map_option (\<lambda>w. Inr (w\<lparr>out := snd io4 @ out w\<rparr>))
                        (rename_files os fuel target_path find_char replace_char fs0)))))"

section \<open>Notions used in the statements\<close>

text \<open>The number of values \<^verbatim>\<open>main\<close> has to ask for before it asks for the confirmation.\<close>

definition asked :: "args \<Rightarrow> nat" where
  "asked a =
     (if arg_directory a = None \<or> arg_directory a = Some [] then 1 else 0)
     + (if arg_find a = None then 1 else 0)
     + (if arg_replace a = None then 1 else 0)"

text \<open>
  The path \<^verbatim>\<open>main\<close> starts from: the command-line argument when there is one (and it
  is not empty), otherwise the first line of the input, stripped and unquoted.
\<close>

definition raw_target :: "args \<Rightarrow> string list \<Rightarrow> string" where
  "raw_target a stdin =
     (case arg_directory a of
        None \<Rightarrow> unquote (py_strip (hd stdin))
      | Some d \<Rightarrow> if d = [] then unquote (py_strip (hd stdin)) else d)"

text \<open>
  The find and the replace token \<^verbatim>\<open>main\<close> works with (the argument, or the line
  of the input that answers the prompt), and everything \<^verbatim>\<open>main\<close> prints up to the
  prompt for the confirmation.
\<close>

definition find_token :: "args \<Rightarrow> string list \<Rightarrow> string" where
  "find_token a stdin =
     (case arg_find a of
        None \<Rightarrow> stdin ! (if arg_directory a = None \<or> arg_directory a = Some [] then 1 else 0)
      | Some f \<Rightarrow> f)"

definition replace_token :: "args \<Rightarrow> string list \<Rightarrow> string" where
  "replace_token a stdin =
     (case arg_replace a of
        None \<Rightarrow> stdin ! ((if arg_directory a = None \<or> arg_directory a = Some [] then 1 else 0)
                        + (if arg_find a = None then 1 else 0))
      | Some r \<Rightarrow> r)"

definition dialogue :: "'fs os \<Rightarrow> args \<Rightarrow> string list \<Rightarrow> event list" where
  "dialogue os a stdin =
     (if arg_directory a = None \<or> arg_directory a = Some []
      then [Prompt ''Enter the directory to scan: ''] else [])
     @ (if arg_find a = None then [Prompt ''Enter character(s) to find (e.g. _): ''] else [])
     @ (if arg_replace a = None
        then [Prompt ''Enter replacement character(s) (e.g. space): ''] else [])
     @ [Config (abspath os (raw_target a stdin)) (find_token a stdin) (replace_token a stdin),
        Prompt (CHR 0x0A # ''Proceed? (y/n): '')]"

text \<open>
  The candidate files of a run, in the order of the walk: every name in the \<^verbatim>\<open>files\<close>
  of a yielded triple that contains the find token, with the \<^verbatim>\<open>root\<close> of the triple.
\<close>

definition targets :: "string \<Rightarrow> (path \<times> string list \<times> string list) list \<Rightarrow> (path \<times> string) list" where
  "targets f vs =
     concat (map (\<lambda>(root, dirs, files). map (Pair root) (filter (sublist f) files)) vs)"

text \<open>
  The rename call and the printed event that belong to a candidate file and the outcome of
  \<^verbatim>\<open>os.rename\<close> on it (\<open>None\<close> for success, the message of the exception otherwise).
\<close>

definition call_of :: "string \<Rightarrow> string \<Rightarrow> path \<times> string \<Rightarrow> string option \<Rightarrow> path \<times> path \<times> string option" where
  "call_of f r t res = (join (fst t) (snd t), join (fst t) (py_replace (snd t) f r), res)"

definition event_of :: "string \<Rightarrow> string \<Rightarrow> path \<times> string \<Rightarrow> string option \<Rightarrow> event" where
  "event_of f r t res =
     (case res of
        None \<Rightarrow> Renamed (snd t) (py_replace (snd t) f r)
      | Some e \<Rightarrow> RenameError (snd t) e)"

text \<open>The file system after the logged calls that succeeded, made again in their order.\<close>

definition replay_call :: "'fs os \<Rightarrow> 'fs \<Rightarrow> path \<times> path \<times> string option \<Rightarrow> 'fs" where
  "replay_call os fs c =
     (case c of
        (old_path, new_path, None) \<Rightarrow>
          (case rename os fs old_path new_path of Inr fs' \<Rightarrow> fs' | Inl e \<Rightarrow> fs)
      | (old_path, new_path, Some e) \<Rightarrow> fs)"

definition replay :: "'fs os \<Rightarrow> (path \<times> path \<times> string option) list \<Rightarrow> 'fs \<Rightarrow> 'fs" where
  "replay os cs fs = foldl (replay_call os) fs cs"

text \<open>
  A bound on the depth of the tree below a directory, in every state of the file system:
  the scan of a directory of depth \<open>Suc n\<close> fails or lists directories of depth \<open>n\<close>.
\<close>

primrec shallow :: "'fs os \<Rightarrow> nat \<Rightarrow> path \<Rightarrow> bool" where
  "shallow os 0 root = False"
| "shallow os (Suc n) root =
     (\<forall>fs. case scandir os fs root of
             None \<Rightarrow> True
           | Some (dirs, files) \<Rightarrow> list_all (\<lambda>d. shallow os n (join root d)) dirs)"

text \<open>
  The state of the walk agrees with its logs: there is one call per candidate file, in the
  order of the walk, each with the two paths made from the root and the name; the output has
  one event per call; the counter is the number of calls that succeeded; and the file system
  is the initial one after the calls that succeeded.
\<close>

definition consistent :: "'fs os \<Rightarrow> string \<Rightarrow> string \<Rightarrow> 'fs \<Rightarrow> 'fs world \<times> nat \<Rightarrow> bool" where
  "consistent os f r fs0 s =
     (let w = fst s; ts = targets f (visited w); rs = map (\<lambda>c. snd (snd c)) (calls w)
      in length rs = length ts
         \<and> calls w = map2 (call_of f r) ts rs
         \<and> out w = map2 (event_of f r) ts rs
         \<and> snd s = length (filter (\<lambda>x. x = None) rs)
         \<and> fsys w = replay os (calls w) fs0)"

text \<open>
  What the operating system answers when the candidate files are renamed in their order, each
  rename in the file system the renames before it have left: the calls with their outcomes.
\<close>

fun perform ::
  "'fs os \<Rightarrow> string \<Rightarrow> string \<Rightarrow> 'fs \<Rightarrow> (path \<times> string) list \<Rightarrow> (path \<times> path \<times> string option) list" where
  "perform os f r fs [] = []"
| "perform os f r fs (t # ts) =
     (case rename os fs (join (fst t) (snd t)) (join (fst t) (py_replace (snd t) f r)) of
        Inl e \<Rightarrow> call_of f r t (Some e) # perform os f r fs ts
      | Inr fs' \<Rightarrow> call_of f r t None # perform os f r fs' ts)"

text \<open>
  What is printed for a candidate file, given the outcome of its rename and what has been
  printed before: the failure of the rename with its message; else the success, or, when the
  success cannot be printed, the message of that exception as the failure. And the events
  for a list of candidates with their outcomes.
\<close>

definition report_of :: "printer \<Rightarrow> string \<Rightarrow> string \<Rightarrow> event list \<Rightarrow> path \<times> string \<Rightarrow> string option \<Rightarrow> event" where
  "report_of pr f r shown t res =
     (case res of
        Some e \<Rightarrow> RenameError (snd t) e
      | None \<Rightarrow>
          (case pr shown (Renamed (snd t) (py_replace (snd t) f r)) of
             None \<Rightarrow> Renamed (snd t) (py_replace (snd t) f r)
           | Some e \<Rightarrow> RenameError (snd t) e))"

fun reports ::
  "printer \<Rightarrow> string \<Rightarrow> string \<Rightarrow> event list \<Rightarrow> ((path \<times> string) \<times> string option) list \<Rightarrow> event list" where
  "reports pr f r shown [] = []"
| "reports pr f r shown (x # xs) =
     report_of pr f r shown (fst x) (snd x)
       # reports pr f r (shown @ [report_of pr f r shown (fst x) (snd x)]) xs"

definition is_Renamed :: "event \<Rightarrow> bool" where
  "is_Renamed e = (case e of Renamed x y \<Rightarrow> True | _ \<Rightarrow> False)"

text \<open>
  The file systems a run passes through: the initial one after the first \<open>k\<close> calls of the
  log, for every \<open>k\<close>. A yielded triple is listed when it is the scan of its directory in one
  of them. It is entered when each of its \<^verbatim>\<open>dirs\<close> is, in one of them, a symbolic link, or
  a directory whose scan fails, or a directory whose scan is among the yielded triples.
\<close>

definition moments :: "'fs os \<Rightarrow> 'fs \<Rightarrow> (path \<times> path \<times> string option) list \<Rightarrow> 'fs list" where
  "moments os fs cs = map (\<lambda>k. replay os (take k cs) fs) [0..<Suc (length cs)]"

definition listed :: "'fs os \<Rightarrow> 'fs \<Rightarrow> 'fs world \<Rightarrow> path \<times> string list \<times> string list \<Rightarrow> bool" where
  "listed os fs w e = (\<exists>fs' \<in> set (moments os fs (calls w)). scandir os fs' (fst e) = Some (snd e))"

definition reached :: "'fs os \<Rightarrow> 'fs \<Rightarrow> 'fs world \<Rightarrow> path \<Rightarrow> bool" where
  "reached os fs w p =
     (\<exists>fs' \<in> set (moments os fs (calls w)).
        case scandir os fs' p of None \<Rightarrow> True | Some l \<Rightarrow> (p, l) \<in> set (visited w))"

definition entered :: "'fs os \<Rightarrow> 'fs \<Rightarrow> 'fs world \<Rightarrow> path \<times> string list \<times> string list \<Rightarrow> bool" where
  "entered os fs w e =
     list_all (\<lambda>d. (\<exists>fs' \<in> set (moments os fs (calls w)). islink os fs' (join (fst e) d))
                  \<or> reached os fs w (join (fst e) d))
       (fst (snd e))"

text \<open>
  The state of the walk with the exceptions of \<^verbatim>\<open>print\<close> agrees with the operating system:
  the calls are its answers for the candidate files, in their order; the file system is the
  initial one after them; the output is the report for each; and the counter is the number
  of successes that were printed.
\<close>

definition faithful :: "'fs os \<Rightarrow> printer \<Rightarrow> string \<Rightarrow> string \<Rightarrow> 'fs \<Rightarrow> 'fs world \<times> nat \<Rightarrow> bool" where
  "faithful os pr f r init s =
     (let w = fst s; ts = targets f (visited w)
      in calls w = perform os f r init ts
         \<and> fsys w = replay os (calls w) init
         \<and> out w = reports pr f r [] (zip ts (map (\<lambda>c. snd (snd c)) (calls w)))
         \<and> snd s = length (filter is_Renamed (out w)))"

text \<open>
  From one state of the walk to a later one: the logs have grown at their ends, and every
  triple that was added is listed and entered in the later state.
\<close>

definition extends :: "'fs os \<Rightarrow> 'fs \<Rightarrow> 'fs world \<Rightarrow> 'fs world \<Rightarrow> bool" where
  "extends os fs w w' =
     (\<exists>cs vs. calls w' = calls w @ cs \<and> visited w' = visited w @ vs
        \<and> list_all (\<lambda>e. listed os fs w' e \<and> entered os fs w' e) vs)"

section \<open>A small file system for the example runs\<close>

text \<open>
  One directory \<^verbatim>\<open>/d\<close> with one subdirectory \<^verbatim>\<open>a\<close>; the state is the list of file
  names in each. Renaming follows POSIX: the source must exist, a file cannot replace a
  directory, the directory of the target must exist, and an existing file of the target name
  is replaced.
\<close>

record toyfs =
  top_files :: "string list"
  sub_files :: "string list"

definition toy_del :: "path \<Rightarrow> string \<Rightarrow> toyfs \<Rightarrow> toyfs" where
  "toy_del d x t =
     (if d = ''/d'' then t\<lparr>top_files := removeAll x (top_files t)\<rparr>
      else t\<lparr>sub_files := removeAll x (sub_files t)\<rparr>)"

definition toy_add :: "path \<Rightarrow> string \<Rightarrow> toyfs \<Rightarrow> toyfs" where
  "toy_add d x t =
     (if d = ''/d'' then t\<lparr>top_files := removeAll x (top_files t) @ [x]\<rparr>
      else t\<lparr>sub_files := removeAll x (sub_files t) @ [x]\<rparr>)"

definition toy_rename :: "toyfs \<Rightarrow> path \<Rightarrow> path \<Rightarrow> string + toyfs" where
  "toy_rename t old new =
     (let od = dirname old; ob = basename old; nd = dirname new; nb = basename new
      in if \<not> ((od = ''/d'' \<and> ob \<in> set (top_files t)) \<or> (od = ''/d/a'' \<and> ob \<in> set (sub_files t)))
         then Inl ''No such file or directory''
         else if nd = ''/d'' \<and> nb = ''a'' then Inl ''Is a directory''
         else if nb \<in> {[], ''.'', ''..''} \<or> nd \<notin> {''/d'', ''/d/a''}
         then Inl ''No such file or directory''
         else if old = new then Inr t
         else Inr (toy_add nd nb (toy_del od ob t)))"

definition toy_os :: "toyfs os" where
  "toy_os =
     \<lparr>isdir = (\<lambda>t p. p \<in> {''/d'', ''/d/a''}),
      scandir = (\<lambda>t p. if p = ''/d'' then Some ([''a''], top_files t)
                       else if p = ''/d/a'' then Some ([], sub_files t) else None),
      islink = (\<lambda>t p. False),
      rename = toy_rename,
      getcwd = ''/home/u''\<rparr>"

text \<open>
  The example of the specification, with one of the files a level down: find \<^verbatim>\<open>_\<close>,
  replace with a space. And the world after that run.
\<close>

definition example_fs :: toyfs where
  "example_fs = \<lparr>top_files = [''a_b.txt'', ''note.txt''], sub_files = [''c_d.txt'']\<rparr>"

definition example_world :: "toyfs world" where
  "example_world =
     \<lparr>fsys = \<lparr>top_files = [''note.txt'', ''a b.txt''], sub_files = [''c d.txt'']\<rparr>,
      out = [Renamed ''a_b.txt'' ''a b.txt'', Renamed ''c_d.txt'' ''c d.txt'', Finished 2],
      calls = [(''/d/a_b.txt'', ''/d/a b.txt'', None), (''/d/a/c_d.txt'', ''/d/a/c d.txt'', None)],
      visited = [(''/d'', [''a''], [''a_b.txt'', ''note.txt'']), (''/d/a'', [], [''c_d.txt''])]\<rparr>"


text \<open>
  The same directories without the permission to write: every rename is refused. A standard
  output that takes ASCII only: an event with any other character in its strings cannot be
  encoded, and the \<^verbatim>\<open>print\<close> raises. And a printer that fails on such an event only
  when it is the report of a success.
\<close>

definition readonly_os :: "toyfs os" where
  "readonly_os = toy_os\<lparr>rename := (\<lambda>t old_path new_path. Inl ''Permission denied'')\<rparr>"

definition event_chars :: "event \<Rightarrow> string" where
  "event_chars e =
     (case e of
        Prompt s \<Rightarrow> s
      | Config p f r \<Rightarrow> p @ f @ r
      | Cancelled \<Rightarrow> []
      | DirMissing p \<Rightarrow> p
      | Renamed x y \<Rightarrow> x @ y
      | RenameError x m \<Rightarrow> x @ m
      | Finished n \<Rightarrow> [])"

definition ascii_printer :: printer where
  "ascii_printer shown e =
     (if list_all (\<lambda>c. (of_char c :: nat) < 128) (event_chars e) then None
      else Some ''codec cannot encode character'')"

definition success_ascii_printer :: printer where
  "success_ascii_printer shown e = (if is_Renamed e then ascii_printer shown e else None)"

section \<open>The replacement of the find token\<close>

lemma replace_scan_no_occurrence: "\<not> sublist f s \<Longrightarrow> replace_scan f r s = s"
proof (induction s)
  case Nil
  show ?case by simp
next
  case (Cons c cs)
  from Cons.prems have "\<not> prefix f (c # cs)" and "\<not> sublist f cs"
    by (simp_all add: sublist_Cons_right)
  with Cons.IH show ?case by simp
qed

lemma replaced_Cons:
  assumes "replaced f r s t" and "\<not> prefix f (c # s)"
  shows "replaced f r (c # s) (c # t)"
  using assms
proof (cases rule: replaced.cases)
  case no_occurrence
  with assms(2) have "\<not> sublist f (c # s)" by (simp add: sublist_Cons_right)
  with no_occurrence show ?thesis by (simp add: replaced.no_occurrence)
next
  case (leftmost p s' t')
  have "prefix (c # p @ butlast f) (c # s)"
    unfolding leftmost by (simp add: prefixeq_butlast)
  with assms(2) have "\<not> prefix f (c # p @ butlast f)"
    using prefix_order.trans by blast
  with leftmost(3) have "\<not> sublist f ((c # p) @ butlast f)"
    by (simp add: sublist_Cons_right)
  from replaced.leftmost[OF this leftmost(4)] show ?thesis
    unfolding leftmost by simp
qed

lemma replaced_replace_scan: "f \<noteq> [] \<Longrightarrow> replaced f r s (replace_scan f r s)"
proof (induction f r s rule: replace_scan.induct)
  case (1 old new)
  then show ?case by (simp add: replaced.no_occurrence)
next
  case (2 old new c cs)
  show ?case
  proof (cases "prefix old (c # cs)")
    case True
    then obtain rest where rest: "c # cs = old @ rest" by (auto simp: prefix_def)
    have "\<not> sublist old ([] @ butlast old)"
      using "2.prems" sublist_length_le[of old "butlast old"] by (cases old rule: rev_cases) auto
    moreover have d: "drop (length old) (c # cs) = rest"
      by (simp add: rest)
    then have "replaced old new rest (replace_scan old new rest)"
      using "2.IH"(1) "2.prems" True by simp
    ultimately have "replaced old new ([] @ old @ rest) ([] @ new @ replace_scan old new rest)"
      by (rule replaced.leftmost)
    moreover have "replace_scan old new (c # cs) = new @ replace_scan old new rest"
      using True "2.prems" d by simp
    ultimately show ?thesis by (simp add: rest)
  next
    case False
    with "2.IH"(2) "2.prems" have "replaced old new cs (replace_scan old new cs)" by simp
    from replaced_Cons[OF this False] show ?thesis using False by simp
  qed
qed

lemma replace_scan_leftmost:
  "f \<noteq> [] \<Longrightarrow> \<not> sublist f (p @ butlast f) \<Longrightarrow>
     replace_scan f r (p @ f @ s) = p @ r @ replace_scan f r s"
proof (induction p)
  case Nil
  then show ?case by (cases f) auto
next
  case (Cons c p)
  from Cons.prems(2) have np: "\<not> prefix f (c # p @ butlast f)" and ns: "\<not> sublist f (p @ butlast f)"
    by (simp_all add: sublist_Cons_right)
  have "\<not> prefix f (c # p @ f @ s)"
  proof
    assume pf: "prefix f (c # p @ f @ s)"
    have "prefix (c # p @ butlast f) (c # p @ f @ s)" by (simp add: prefixeq_butlast)
    moreover have "length f \<le> length (c # p @ butlast f)" by simp
    ultimately have "prefix f (c # p @ butlast f)"
      using pf by (meson prefix_length_prefix)
    with np show False ..
  qed
  with Cons.IH[OF Cons.prems(1) ns] show ?case by simp
qed

lemma replaced_unique: "replaced f r s t \<Longrightarrow> f \<noteq> [] \<Longrightarrow> t = replace_scan f r s"
proof (induction rule: replaced.induct)
  case (no_occurrence s)
  then show ?case by (simp add: replace_scan_no_occurrence)
next
  case (leftmost p s t)
  then show ?case by (simp add: replace_scan_leftmost)
qed

lemma replaced_iff: "f \<noteq> [] \<Longrightarrow> replaced f r s t \<longleftrightarrow> t = py_replace s f r"
  using replaced_unique replaced_replace_scan by (auto simp: py_replace_def)

lemma set_replace_scan: "set (replace_scan f r s) \<subseteq> set s \<union> set r"
proof (induction f r s rule: replace_scan.induct)
  case (1 old new)
  show ?case by simp
next
  case (2 old new c cs)
  have "set (drop (length old) (c # cs)) \<subseteq> set (c # cs)" by (rule set_drop_subset)
  with 2 show ?case by (auto split: if_splits)
qed

lemma set_py_replace: "set (py_replace s f r) \<subseteq> set s \<union> set r"
  using set_replace_scan[of f r s] by (auto simp: py_replace_def)



lemma length_replace_scan_le:
  "length f \<le> length r \<Longrightarrow> length s \<le> length (replace_scan f r s)"
proof (induction f r s rule: replace_scan.induct)
  case (1 old new)
  show ?case by simp
next
  case (2 old new c cs)
  show ?case
  proof (cases "old \<noteq> [] \<and> prefix old (c # cs)")
    case True
    then have "length old \<le> length (c # cs)" by (auto dest: prefix_length_le)
    with True 2 show ?thesis by simp
  next
    case False
    with 2 show ?thesis by auto
  qed
qed

lemma length_replace_scan_less:
  "f \<noteq> [] \<Longrightarrow> length f < length r \<Longrightarrow> sublist f s \<Longrightarrow> length s < length (replace_scan f r s)"
proof (induction f r s rule: replace_scan.induct)
  case (1 old new)
  then show ?case by simp
next
  case (2 old new c cs)
  show ?case
  proof (cases "prefix old (c # cs)")
    case True
    then have "length old \<le> length (c # cs)" by (auto dest: prefix_length_le)
    moreover have "length (drop (length old) (c # cs)) \<le> length (replace_scan old new (drop (length old) (c # cs)))"
      using "2.prems"(2) by (intro length_replace_scan_le) simp
    ultimately show ?thesis using True "2.prems" by simp
  next
    case False
    with "2.prems" have "sublist old cs" by (simp add: sublist_Cons_right)
    with False 2 show ?thesis by auto
  qed
qed

lemma sublist_replace_scan:
  "f \<noteq> [] \<Longrightarrow> sublist f s \<Longrightarrow> sublist r (replace_scan f r s)"
proof (induction f r s rule: replace_scan.induct)
  case (1 old new)
  then show ?case by simp
next
  case (2 old new c cs)
  show ?case
  proof (cases "prefix old (c # cs)")
    case True
    with "2.prems" show ?thesis by simp
  next
    case False
    with "2.prems" have "sublist old cs" by (simp add: sublist_Cons_right)
    with False 2 have "sublist new (replace_scan old new cs)" by simp
    then show ?thesis using False by (simp add: sublist_Cons_right)
  qed
qed

section \<open>The walk keeps its logs consistent\<close>

lemma replay_append: "replay os (cs @ cs') fs = replay os cs' (replay os cs fs)"
  by (simp add: replay_def)

lemma rename_in_dir_shape:
  "\<exists>rs. length rs = length (filter (sublist f) files) \<and>
     rename_in_dir os f r root files (w, n) =
       (w\<lparr>fsys := replay os (map2 (call_of f r) (map (Pair root) (filter (sublist f) files)) rs) (fsys w),
          out := out w @ map2 (event_of f r) (map (Pair root) (filter (sublist f) files)) rs,
          calls := calls w @ map2 (call_of f r) (map (Pair root) (filter (sublist f) files)) rs\<rparr>,
        n + length (filter (\<lambda>x. x = None) rs))"
proof (induction files arbitrary: w n)
  case Nil
  show ?case by (simp add: replay_def)
next
  case (Cons x files)
  let ?cs = "filter (sublist f) files"
  show ?case
  proof (cases "sublist f x")
    case False
    from Cons.IH[of w n] False show ?thesis by simp
  next
    case True
    let ?old = "join root x" and ?new = "join root (py_replace x f r)"
    show ?thesis
    proof (cases "rename os (fsys w) ?old ?new")
      case (Inr fs')
      let ?w1 = "print (Renamed x (py_replace x f r)) (w\<lparr>fsys := fs', calls := calls w @ [(?old, ?new, None)]\<rparr>)"
      from Cons.IH[of ?w1 "n + 1"] obtain rs where
        len: "length rs = length ?cs" and
        eq: "rename_in_dir os f r root files (?w1, n + 1) =
          (?w1\<lparr>fsys := replay os (map2 (call_of f r) (map (Pair root) ?cs) rs) (fsys ?w1),
             out := out ?w1 @ map2 (event_of f r) (map (Pair root) ?cs) rs,
             calls := calls ?w1 @ map2 (call_of f r) (map (Pair root) ?cs) rs\<rparr>,
           n + 1 + length (filter (\<lambda>x. x = None) rs))"
        by blast
      have "rename_in_dir os f r root (x # files) (w, n) = rename_in_dir os f r root files (?w1, n + 1)"
        using True Inr by (simp add: Let_def)
      with eq len True Inr show ?thesis
        by (intro exI[of _ "None # rs"])
           (simp add: print_def call_of_def event_of_def replay_def replay_call_def)
    next
      case (Inl e)
      let ?w1 = "print (RenameError x e) (w\<lparr>calls := calls w @ [(?old, ?new, Some e)]\<rparr>)"
      from Cons.IH[of ?w1 n] obtain rs where
        len: "length rs = length ?cs" and
        eq: "rename_in_dir os f r root files (?w1, n) =
          (?w1\<lparr>fsys := replay os (map2 (call_of f r) (map (Pair root) ?cs) rs) (fsys ?w1),
             out := out ?w1 @ map2 (event_of f r) (map (Pair root) ?cs) rs,
             calls := calls ?w1 @ map2 (call_of f r) (map (Pair root) ?cs) rs\<rparr>,
           n + length (filter (\<lambda>x. x = None) rs))"
        by blast
      have "rename_in_dir os f r root (x # files) (w, n) = rename_in_dir os f r root files (?w1, n)"
        using True Inl by (simp add: Let_def)
      with eq len True Inl show ?thesis
        by (intro exI[of _ "Some e # rs"])
           (simp add: print_def call_of_def event_of_def replay_def replay_call_def)
    qed
  qed
qed

lemma map2_call_of_res:
  "length rs = length ts \<Longrightarrow> map (\<lambda>c. snd (snd c)) (map2 (call_of f r) ts rs) = rs"
  by (induction ts rs rule: list_induct2') (simp_all add: call_of_def)

lemma targets_append: "targets f (vs @ vs') = targets f vs @ targets f vs'"
  by (simp add: targets_def)

lemma consistent_rename_in_dir:
  assumes "consistent os f r fs0 s"
  shows "consistent os f r fs0
           (rename_in_dir os f r root files (fst s\<lparr>visited := visited (fst s) @ [(root, dirs, files)]\<rparr>, snd s))"
proof -
  let ?w = "fst s\<lparr>visited := visited (fst s) @ [(root, dirs, files)]\<rparr>"
  let ?ts = "targets f (visited (fst s))" and ?rs = "map (\<lambda>c. snd (snd c)) (calls (fst s))"
  let ?ts' = "map (Pair root) (filter (sublist f) files)"
  obtain rs where len: "length rs = length ?ts'" and
    eq: "rename_in_dir os f r root files (?w, snd s) =
       (?w\<lparr>fsys := replay os (map2 (call_of f r) ?ts' rs) (fsys ?w),
          out := out ?w @ map2 (event_of f r) ?ts' rs,
          calls := calls ?w @ map2 (call_of f r) ?ts' rs\<rparr>,
        snd s + length (filter (\<lambda>x. x = None) rs))"
    using rename_in_dir_shape[where f = f and files = files and os = os and r = r and root = root and w = ?w and n = "snd s"] by auto
  from assms have a: "length ?rs = length ?ts" "calls (fst s) = map2 (call_of f r) ?ts ?rs"
    "out (fst s) = map2 (event_of f r) ?ts ?rs" "snd s = length (filter (\<lambda>x. x = None) ?rs)"
    "fsys (fst s) = replay os (calls (fst s)) fs0"
    by (simp_all add: consistent_def Let_def)
  have ts: "targets f (visited ?w) = ?ts @ ?ts'"
    by (simp add: targets_append) (simp add: targets_def)
  have rs: "map (\<lambda>c. snd (snd c)) (calls (fst s) @ map2 (call_of f r) ?ts' rs) = ?rs @ rs"
    using map2_call_of_res[OF len, of f r] by (simp del: map_map)
  have c: "calls (fst s) @ map2 (call_of f r) ?ts' rs = map2 (call_of f r) (?ts @ ?ts') (?rs @ rs)"
    using a(1) a(2) by (simp del: map_map)
  have o: "out (fst s) @ map2 (event_of f r) ?ts' rs = map2 (event_of f r) (?ts @ ?ts') (?rs @ rs)"
    using a(1) a(3) by (simp del: map_map)
  show ?thesis
    unfolding eq consistent_def Let_def
    using len a(1) a(4) a(5) c o rs ts
    by (simp add: replay_append del: map_map)
qed

lemma fold_option_preserves:
  assumes "\<And>d s s'. d \<in> set ds \<Longrightarrow> g d s = Some s' \<Longrightarrow> P s \<Longrightarrow> P s'"
    and "fold_option g ds s = Some s'" and "P s"
  shows "P s'"
  using assms
proof (induction ds arbitrary: s)
  case Nil
  then show ?case by simp
next
  case (Cons d ds)
  from Cons.prems(2) obtain s1 where s1: "g d s = Some s1" and rest: "fold_option g ds s1 = Some s'"
    by (auto split: option.splits)
  have "P s1" using Cons.prems(1)[of d s s1] s1 Cons.prems(3) by simp
  show ?case
    by (rule Cons.IH[OF _ rest \<open>P s1\<close>]) (use Cons.prems(1) in auto)
qed

lemma consistent_walk:
  "walk n os f r root s = Some s' \<Longrightarrow> consistent os f r fs0 s \<Longrightarrow> consistent os f r fs0 s'"
proof (induction n arbitrary: root s s')
  case 0
  then show ?case by simp
next
  case (Suc n)
  show ?case
  proof (cases "scandir os (fsys (fst s)) root")
    case None
    with Suc.prems show ?thesis by simp
  next
    case (Some entries)
    obtain dirs files where entries: "entries = (dirs, files)" by (cases entries)
    let ?s1 = "rename_in_dir os f r root files (fst s\<lparr>visited := visited (fst s) @ [(root, dirs, files)]\<rparr>, snd s)"
    let ?into = "filter (\<lambda>d. \<not> islink os (fsys (fst ?s1)) (join root d)) dirs"
    from Suc.prems(1) Some entries
    have run: "fold_option (\<lambda>d. walk n os f r (join root d)) ?into ?s1 = Some s'"
      by (simp add: Let_def)
    have "consistent os f r fs0 ?s1"
      using Suc.prems(2) by (rule consistent_rename_in_dir)
    with run show ?thesis
      using Suc.IH by (rule fold_option_preserves[rotated 1]) blast
  qed
qed

lemma rename_files_result:
  assumes "rename_files os fuel target f r fs0 = Some w" and "isdir os fs0 target"
  shows "\<exists>w' n. w = print (Finished n) w' \<and> consistent os f r fs0 (w', n)"
proof -
  let ?w0 = "\<lparr>fsys = fs0, out = [], calls = [], visited = []\<rparr>"
  from assms obtain w' n where run: "walk fuel os f r target (?w0, 0) = Some (w', n)"
    and w: "w = print (Finished n) w'"
    by (auto simp: rename_files_def Let_def split: option.splits)
  have "consistent os f r fs0 (?w0, 0)"
    by (simp add: consistent_def targets_def replay_def)
  from consistent_walk[OF run this] w show ?thesis by blast
qed

lemma fold_option_total:
  assumes "\<And>d s. d \<in> set ds \<Longrightarrow> \<exists>s'. g d s = Some s'"
  shows "\<exists>s'. fold_option g ds s = Some s'"
  using assms
proof (induction ds arbitrary: s)
  case Nil
  show ?case by simp
next
  case (Cons d ds)
  from Cons.prems[of d s] obtain s1 where "g d s = Some s1" by auto
  with Cons.IH[of s1] Cons.prems show ?case by simp
qed

lemma walk_total: "shallow os n root \<Longrightarrow> \<exists>s'. walk n os f r root s = Some s'"
proof (induction n arbitrary: root s)
  case 0
  then show ?case by simp
next
  case (Suc n)
  show ?case
  proof (cases "scandir os (fsys (fst s)) root")
    case None
    then show ?thesis by simp
  next
    case (Some entries)
    obtain dirs files where entries: "entries = (dirs, files)" by (cases entries)
    from Suc.prems Some entries have deep: "\<And>d. d \<in> set dirs \<Longrightarrow> shallow os n (join root d)"
      by (auto simp: list_all_iff split: option.splits dest!: spec[of _ "fsys (fst s)"])
    let ?s1 = "rename_in_dir os f r root files (fst s\<lparr>visited := visited (fst s) @ [(root, dirs, files)]\<rparr>, snd s)"
    let ?into = "filter (\<lambda>d. \<not> islink os (fsys (fst ?s1)) (join root d)) dirs"
    have "\<exists>s'. fold_option (\<lambda>d. walk n os f r (join root d)) ?into ?s1 = Some s'"
      by (rule fold_option_total) (use deep Suc.IH in auto)
    then show ?thesis
      using Some entries by (simp add: Let_def)
  qed
qed

text \<open>
  Fuel beyond what a run needs changes nothing: the result of a run is its result with any
  larger fuel.
\<close>

lemma fold_option_mono:
  assumes "\<And>d s s'. d \<in> set ds \<Longrightarrow> g d s = Some s' \<Longrightarrow> g' d s = Some s'"
    and "fold_option g ds s = Some s'"
  shows "fold_option g' ds s = Some s'"
  using assms
proof (induction ds arbitrary: s)
  case Nil
  then show ?case by simp
next
  case (Cons d ds)
  from Cons.prems(2) obtain s1 where s1: "g d s = Some s1" and rest: "fold_option g ds s1 = Some s'"
    by (auto split: option.splits)
  from Cons.prems(1)[of d s s1] s1 have "g' d s = Some s1" by simp
  moreover have "fold_option g' ds s1 = Some s'"
    by (rule Cons.IH[OF _ rest]) (use Cons.prems(1) in auto)
  ultimately show ?case by simp
qed

lemma walk_more_fuel:
  "walk n os f r root s = Some s' \<Longrightarrow> walk (n + k) os f r root s = Some s'"
proof (induction n arbitrary: root s s')
  case 0
  then show ?case by simp
next
  case (Suc n)
  show ?case
  proof (cases "scandir os (fsys (fst s)) root")
    case None
    with Suc.prems show ?thesis by simp
  next
    case (Some entries)
    obtain dirs files where entries: "entries = (dirs, files)" by (cases entries)
    let ?s1 = "rename_in_dir os f r root files (fst s\<lparr>visited := visited (fst s) @ [(root, dirs, files)]\<rparr>, snd s)"
    let ?into = "filter (\<lambda>d. \<not> islink os (fsys (fst ?s1)) (join root d)) dirs"
    from Suc.prems Some entries
    have "fold_option (\<lambda>d. walk n os f r (join root d)) ?into ?s1 = Some s'"
      by (simp add: Let_def)
    then have "fold_option (\<lambda>d. walk (n + k) os f r (join root d)) ?into ?s1 = Some s'"
      by (rule fold_option_mono[rotated]) (rule Suc.IH)
    with Some entries show ?thesis by (simp add: Let_def)
  qed
qed

lemma rename_files_more_fuel:
  "rename_files os fuel target f r fs = Some w \<Longrightarrow> rename_files os (fuel + k) target f r fs = Some w"
  by (auto simp: rename_files_def Let_def split: option.splits if_splits dest: walk_more_fuel[where k = k])

section \<open>Paths\<close>

lemma dropWhile_no_sep: "CHR ''/'' \<notin> set x \<Longrightarrow> dropWhile (\<lambda>c. c \<noteq> CHR ''/'') (rev x @ ys) = dropWhile (\<lambda>c. c \<noteq> CHR ''/'') ys"
  by (induction x rule: rev_induct) auto

lemma dirname_append: "CHR ''/'' \<notin> set x \<Longrightarrow> dirname (a @ x) = dirname a"
  by (simp add: dirname_def dropWhile_no_sep)

lemma join_no_sep:
  "CHR ''/'' \<notin> set x \<Longrightarrow> join root x = (if root = [] \<or> suffix ''/'' root then root else root @ ''/'') @ x"
  by (cases x) (auto simp: join_def)

lemma dirname_join: "CHR ''/'' \<notin> set x \<Longrightarrow> CHR ''/'' \<notin> set y \<Longrightarrow> dirname (join root y) = dirname (join root x)"
  by (simp add: join_no_sep dirname_append del: append_assoc)

lemma normpath_absolute: "prefix ''/'' p \<Longrightarrow> prefix ''/'' (normpath p)"
  by (auto simp: normpath_def Let_def numeral_2_eq_2)

lemma abspath_absolute: "prefix ''/'' (getcwd os) \<Longrightarrow> prefix ''/'' (abspath os p)"
  unfolding abspath_def
  by (rule normpath_absolute) (auto simp: join_def prefix_def)

section \<open>The dialogue of main\<close>

lemma input_drop:
  "k < length stdin \<Longrightarrow>
     input p (drop k stdin, shown) = Inr (stdin ! k, drop (Suc k) stdin, shown @ [Prompt p])"
  by (simp add: input_def flip: Cons_nth_drop_Suc)

lemma lower_char_y: "lower_char c = CHR ''y'' \<longleftrightarrow> c = CHR ''y'' \<or> c = CHR ''Y''"
proof
  assume l: "lower_char c = CHR ''y''"
  let ?n = "of_char c :: nat"
  show "c = CHR ''y'' \<or> c = CHR ''Y''"
  proof (cases "(65 \<le> ?n \<and> ?n \<le> 90) \<or> (192 \<le> ?n \<and> ?n \<le> 222 \<and> ?n \<noteq> 215)")
    case True
    with l have "char_of (?n + 32) = CHR ''y''" by (simp add: lower_char_def Let_def)
    then have "(of_char (char_of (?n + 32) :: char) :: nat) = of_char CHR ''y''" by simp
    then have "(?n + 32) mod 256 = 121" by simp
    with True have "?n = 89" by auto
    then have "of_char c = (of_char CHR ''Y'' :: nat)" by simp
    then have "c = CHR ''Y''" by (simp only: of_char_eq_iff)
    then show ?thesis by simp
  next
    case False
    with l show ?thesis by (simp add: lower_char_def Let_def)
  qed
next
  have "of_char (char_of (121::nat) :: char) = (of_char CHR ''y'' :: nat)" by simp
  then have y: "char_of (121::nat) = CHR ''y''" by (simp only: of_char_eq_iff)
  assume "c = CHR ''y'' \<or> c = CHR ''Y''"
  then show "lower_char c = CHR ''y''" by (auto simp: lower_char_def y)
qed

lemma py_lower_y: "py_lower c = ''y'' \<longleftrightarrow> c = ''y'' \<or> c = ''Y''"
  by (cases c) (auto simp: py_lower_def lower_char_y)

lemma main_eq:
  assumes "asked a < length stdin"
  shows "main os fuel a stdin fs =
       (if py_lower (stdin ! asked a) \<noteq> ''y''
        then Some (Inr \<lparr>fsys = fs, out = dialogue os a stdin @ [Cancelled], calls = [], visited = []\<rparr>)
        else map_option (\<lambda>w. Inr (w\<lparr>out := dialogue os a stdin @ out w\<rparr>))
               (rename_files os fuel (abspath os (raw_target a stdin))
                  (find_token a stdin) (replace_token a stdin) fs))"
proof -
  from assms have ne: "stdin \<noteq> []" by auto
  have first: "\<And>p shown.
      input p (stdin, shown) = Inr (stdin ! 0, drop (Suc 0) stdin, shown @ [Prompt p])"
    using input_drop[of 0 stdin] ne by simp
  have hd0: "hd stdin = stdin ! 0" using ne by (simp add: hd_conv_nth)
  show ?thesis
    using assms
    unfolding main_def dialogue_def find_token_def replace_token_def
    apply (cases "arg_directory a"; cases "arg_find a"; cases "arg_replace a")
    apply (auto simp: asked_def raw_target_def bindE_def first input_drop hd0 Let_def split: if_splits)
    done
qed

section \<open>What a finished run looks like\<close>

lemma targets_mem:
  "(root, x) \<in> set (targets f vs) \<longleftrightarrow>
     (\<exists>dirs files. (root, dirs, files) \<in> set vs \<and> x \<in> set files \<and> sublist f x)"
  by (induction vs) (auto simp: targets_def)

lemma map2_call_of_paths:
  "length rs = length ts \<Longrightarrow>
     map (\<lambda>c. (fst c, fst (snd c))) (map2 (call_of f r) ts rs) =
     map (\<lambda>t. (join (fst t) (snd t), join (fst t) (py_replace (snd t) f r))) ts"
  by (induction ts rs rule: list_induct2') (simp_all add: call_of_def)

lemma consistent_paths:
  assumes "consistent os f r fs0 (w, n)"
  shows "map (\<lambda>c. (fst c, fst (snd c))) (calls w) =
         map (\<lambda>t. (join (fst t) (snd t), join (fst t) (py_replace (snd t) f r))) (targets f (visited w))"
proof -
  let ?ts = "targets f (visited w)" and ?rs = "map (\<lambda>c. snd (snd c)) (calls w)"
  from assms have "length ?rs = length ?ts" and "calls w = map2 (call_of f r) ?ts ?rs"
    by (simp_all add: consistent_def Let_def)
  with map2_call_of_paths[of ?rs ?ts f r] show ?thesis by simp
qed

lemma consistent_call:
  assumes "consistent os f r fs0 (w, n)" and "(old_path, new_path, res) \<in> set (calls w)"
  shows "\<exists>root x. (root, x) \<in> set (targets f (visited w)) \<and> old_path = join root x
           \<and> new_path = join root (py_replace x f r) \<and> event_of f r (root, x) res \<in> set (out w)"
proof -
  let ?ts = "targets f (visited w)" and ?rs = "map (\<lambda>c. snd (snd c)) (calls w)"
  from assms(1) have len: "length ?rs = length ?ts" and c: "calls w = map2 (call_of f r) ?ts ?rs"
    and o: "out w = map2 (event_of f r) ?ts ?rs"
    by (simp_all add: consistent_def Let_def)
  from assms(2) c have "(old_path, new_path, res) \<in> set (map2 (call_of f r) ?ts ?rs)" by simp
  then obtain t res' where z: "(t, res') \<in> set (zip ?ts ?rs)"
    and eq: "(old_path, new_path, res) = call_of f r t res'"
    by auto
  from eq have "res' = res" "old_path = join (fst t) (snd t)"
    "new_path = join (fst t) (py_replace (snd t) f r)"
    by (simp_all add: call_of_def)
  moreover from z have "t \<in> set ?ts" by (rule set_zip_leftD[of "fst t" "snd t", simplified] set_zip_leftD)
  moreover from z have "event_of f r t res' \<in> set (map2 (event_of f r) ?ts ?rs)" by force
  ultimately show ?thesis using o by (intro exI[of _ "fst t"] exI[of _ "snd t"]) simp
qed


lemma rename_files_cases:
  assumes "rename_files os fuel target f r fs0 = Some w"
  shows "(\<not> isdir os fs0 target \<and> w = \<lparr>fsys = fs0, out = [DirMissing target], calls = [], visited = []\<rparr>)
       \<or> (isdir os fs0 target \<and> (\<exists>w' n. w = print (Finished n) w' \<and> consistent os f r fs0 (w', n)))"
proof (cases "isdir os fs0 target")
  case True
  with rename_files_result[OF assms] show ?thesis by simp
next
  case False
  with assms show ?thesis by (auto simp: rename_files_def print_def)
qed

lemma rename_files_call:
  assumes "rename_files os fuel target f r fs0 = Some w" and "(old_path, new_path, res) \<in> set (calls w)"
  shows "\<exists>root x. (root, x) \<in> set (targets f (visited w)) \<and> old_path = join root x
           \<and> new_path = join root (py_replace x f r) \<and> event_of f r (root, x) res \<in> set (out w)"
  using rename_files_cases[OF assms(1)]
proof (elim disjE conjE exE)
  assume "w = \<lparr>fsys = fs0, out = [DirMissing target], calls = [], visited = []\<rparr>"
  with assms(2) show ?thesis by simp
next
  fix w' n
  assume w: "w = print (Finished n) w'" and c: "consistent os f r fs0 (w', n)"
  from assms(2) w have "(old_path, new_path, res) \<in> set (calls w')" by (simp add: print_def)
  from consistent_call[OF c this] w show ?thesis by (auto simp: print_def)
qed

lemma rename_files_not_cancelled:
  assumes "rename_files os fuel target f r fs0 = Some w"
  shows "Cancelled \<notin> set (out w)"
  using rename_files_cases[OF assms]
proof (elim disjE conjE exE)
  assume "w = \<lparr>fsys = fs0, out = [DirMissing target], calls = [], visited = []\<rparr>"
  then show ?thesis by simp
next
  fix w' n
  assume w: "w = print (Finished n) w'" and c: "consistent os f r fs0 (w', n)"
  from c have "out w' = map2 (event_of f r) (targets f (visited w')) (map (\<lambda>c. snd (snd c)) (calls w'))"
    by (simp add: consistent_def Let_def)
  then have "Cancelled \<notin> set (out w')"
    by (auto simp: event_of_def split: option.splits)
  with w show ?thesis by (simp add: print_def)
qed


lemma shallow_toy: "shallow toy_os 2 ''/d''"
  by (simp add: numeral_2_eq_2 toy_os_def join_def)



lemma targets_empty_paths:
  "map (\<lambda>t. (join (fst t) (snd t), join (fst t) (py_replace (snd t) [] r))) (targets [] vs) =
   concat (map (\<lambda>(root, dirs, files).
             map (\<lambda>x. (join root x, join root (r @ concat (map (\<lambda>c. c # r) x)))) files) vs)"
  by (induction vs) (auto simp: targets_def py_replace_def)

lemma length_interleave: "length (concat (map (\<lambda>c. c # r) s)) = length s * Suc (length r)"
  by (induction s) simp_all

lemma length_py_replace_empty: "length (py_replace s [] r) = length r + length s * Suc (length r)"
  by (simp add: py_replace_def length_interleave)

lemma example_run: "rename_files toy_os 2 ''/d'' ''_'' '' '' example_fs = Some example_world"
  by code_simp


lemma isdir_toy: "isdir toy_os t ''/d''"
  by (simp add: toy_os_def)

lemma dialogue_not_cancelled: "Cancelled \<notin> set (dialogue os a stdin)"
  by (simp add: dialogue_def)

lemma dialogue_config:
  "Config (abspath os (raw_target a stdin)) (find_token a stdin) (replace_token a stdin)
     \<in> set (dialogue os a stdin)"
  by (simp add: dialogue_def)






section \<open>The run with the exceptions of print\<close>

lemma length_perform: "length (perform os f r fs ts) = length ts"
  by (induction ts arbitrary: fs) (auto split: sum.splits)

lemma perform_append:
  "perform os f r fs (ts @ ts') =
     perform os f r fs ts @ perform os f r (replay os (perform os f r fs ts) fs) ts'"
  by (induction ts arbitrary: fs)
     (auto simp: replay_def replay_call_def call_of_def split: sum.splits)

lemma reports_append:
  "reports pr f r shown (xs @ ys) =
     reports pr f r shown xs @ reports pr f r (shown @ reports pr f r shown xs) ys"
  by (induction xs arbitrary: shown) simp_all

lemma length_reports: "length (reports pr f r shown xs) = length xs"
  by (induction xs arbitrary: shown) simp_all

text \<open>
  One candidate, when the report of a failure can always be printed: the call is the answer
  of the operating system, the event is the report for it, and no exception is left.
\<close>

lemma rename_one_reported:
  assumes "\<And>shown x e. pr shown (RenameError x e) = None"
  shows "rename_one os pr f r root x (w, n) =
     Inr (w\<lparr>fsys := replay os (perform os f r (fsys w) [(root, x)]) (fsys w),
            out := out w @ reports pr f r (out w)
                     (zip [(root, x)] (map (\<lambda>c. snd (snd c)) (perform os f r (fsys w) [(root, x)]))),
            calls := calls w @ perform os f r (fsys w) [(root, x)]\<rparr>,
          n + length (filter is_Renamed (reports pr f r (out w)
                     (zip [(root, x)] (map (\<lambda>c. snd (snd c)) (perform os f r (fsys w) [(root, x)]))))))"
proof (cases "rename os (fsys w) (join root x) (join root (py_replace x f r))")
  case (Inl e)
  then show ?thesis
    by (simp add: rename_one_def Let_def assms call_of_def report_of_def replay_def
        replay_call_def print_def is_Renamed_def)
next
  case (Inr fs')
  then show ?thesis
    by (cases "pr (out w) (Renamed x (py_replace x f r))")
       (simp_all add: rename_one_def Let_def assms call_of_def report_of_def replay_def
          replay_call_def print_def is_Renamed_def)
qed


lemma rename_in_dir_raising_reported:
  assumes pr: "\<And>shown x e. pr shown (RenameError x e) = None"
  shows "rename_in_dir_raising os pr f r root files (w, n) =
     Inr (w\<lparr>fsys := replay os (perform os f r (fsys w) (map (Pair root) (filter (sublist f) files))) (fsys w),
            out := out w @ reports pr f r (out w)
                     (zip (map (Pair root) (filter (sublist f) files))
                        (map (\<lambda>c. snd (snd c))
                           (perform os f r (fsys w) (map (Pair root) (filter (sublist f) files))))),
            calls := calls w @ perform os f r (fsys w) (map (Pair root) (filter (sublist f) files))\<rparr>,
          n + length (filter is_Renamed (reports pr f r (out w)
                     (zip (map (Pair root) (filter (sublist f) files))
                        (map (\<lambda>c. snd (snd c))
                           (perform os f r (fsys w) (map (Pair root) (filter (sublist f) files))))))))"
proof (induction files arbitrary: w n)
  case Nil
  show ?case by (simp add: replay_def)
next
  case (Cons x files)
  show ?case
  proof (cases "sublist f x")
    case False
    with Cons.IH[of w n] show ?thesis by simp
  next
    case True
    let ?ts = "map (Pair root) (filter (sublist f) files)"
    let ?c1 = "perform os f r (fsys w) [(root, x)]"
    let ?fs1 = "replay os ?c1 (fsys w)"
    let ?e1 = "reports pr f r (out w) (zip [(root, x)] (map (\<lambda>c. snd (snd c)) ?c1))"
    let ?w1 = "w\<lparr>fsys := ?fs1, out := out w @ ?e1, calls := calls w @ ?c1\<rparr>"
    let ?n1 = "n + length (filter is_Renamed ?e1)"
    let ?c2 = "perform os f r ?fs1 ?ts"
    let ?e2 = "reports pr f r (out w @ ?e1) (zip ?ts (map (\<lambda>c. snd (snd c)) ?c2))"
    have one: "rename_one os pr f r root x (w, n) = Inr (?w1, ?n1)"
      using pr by (rule rename_one_reported)
    have rest: "rename_in_dir_raising os pr f r root files (?w1, ?n1) =
        Inr (?w1\<lparr>fsys := replay os ?c2 ?fs1, out := (out w @ ?e1) @ ?e2, calls := (calls w @ ?c1) @ ?c2\<rparr>,
             ?n1 + length (filter is_Renamed ?e2))"
      using Cons.IH[of ?w1 ?n1] by (simp del: perform.simps reports.simps)
    have c: "perform os f r (fsys w) ((root, x) # ?ts) = ?c1 @ ?c2"
      using perform_append[of os f r "fsys w" "[(root, x)]" ?ts] by (simp del: perform.simps)
    have l1: "length ?c1 = 1" by (simp add: length_perform del: perform.simps)
    have e: "reports pr f r (out w) (zip ((root, x) # ?ts) (map (\<lambda>c. snd (snd c)) (?c1 @ ?c2))) = ?e1 @ ?e2"
    proof -
      have "zip ((root, x) # ?ts) (map (\<lambda>c. snd (snd c)) (?c1 @ ?c2)) =
            zip [(root, x)] (map (\<lambda>c. snd (snd c)) ?c1) @ zip ?ts (map (\<lambda>c. snd (snd c)) ?c2)"
        using l1 zip_append[of "[(root, x)]" "map (\<lambda>c. snd (snd c)) ?c1" ?ts "map (\<lambda>c. snd (snd c)) ?c2"]
        by (simp del: perform.simps)
      then show ?thesis by (simp only: reports_append)
    qed
    have "rename_in_dir_raising os pr f r root (x # files) (w, n) =
        rename_in_dir_raising os pr f r root files (?w1, ?n1)"
      using True one by simp
    also note rest
    finally show ?thesis
      using True by (simp only: filter.simps list.map if_True c e replay_append) (simp del: perform.simps reports.simps)
  qed
qed

text \<open>
  The loop over the files of a directory keeps the state in agreement with the operating
  system, and leaves no exception, when the report of a failure can always be printed.
\<close>

lemma faithful_rename_in_dir_raising:
  assumes pr: "\<And>shown x e. pr shown (RenameError x e) = None"
    and "faithful os pr f r init s"
  shows "\<exists>s'. rename_in_dir_raising os pr f r root files
                 (fst s\<lparr>visited := visited (fst s) @ [(root, dirs, files)]\<rparr>, snd s) = Inr s'
              \<and> faithful os pr f r init s'
              \<and> visited (fst s') = visited (fst s) @ [(root, dirs, files)]
              \<and> (\<exists>cs. calls (fst s') = calls (fst s) @ cs)"
proof -
  let ?w = "fst s" and ?n = "snd s"
  let ?v = "?w\<lparr>visited := visited ?w @ [(root, dirs, files)]\<rparr>"
  let ?ts = "targets f (visited ?w)" and ?ts' = "map (Pair root) (filter (sublist f) files)"
  let ?rs = "map (\<lambda>c. snd (snd c)) (calls ?w)"
  let ?cs = "perform os f r (fsys ?w) ?ts'"
  let ?rs' = "map (\<lambda>c. snd (snd c)) ?cs"
  let ?evs = "reports pr f r (out ?w) (zip ?ts' ?rs')"
  let ?w' = "?v\<lparr>fsys := replay os ?cs (fsys ?w), out := out ?w @ ?evs, calls := calls ?w @ ?cs\<rparr>"
  from assms(2) have a: "calls ?w = perform os f r init ?ts" "fsys ?w = replay os (calls ?w) init"
    "out ?w = reports pr f r [] (zip ?ts ?rs)" "?n = length (filter is_Renamed (out ?w))"
    by (simp_all add: faithful_def Let_def)
  have run: "rename_in_dir_raising os pr f r root files (?v, ?n) =
      Inr (?w', ?n + length (filter is_Renamed ?evs))"
    using rename_in_dir_raising_reported[where pr = pr and os = os and f = f and r = r
        and root = root and files = files and w = "?v" and n = "?n"] pr by simp
  have ts: "targets f (visited ?w @ [(root, dirs, files)]) = ?ts @ ?ts'"
    by (simp add: targets_append) (simp add: targets_def)
  have len: "length ?rs = length ?ts" using a(1) length_perform[of os f r init ?ts] by simp
  have len': "length ?rs' = length ?ts'" by (simp add: length_perform)
  have "perform os f r init (?ts @ ?ts') = calls ?w @ ?cs"
    unfolding perform_append using a(1) a(2) by simp
  then have c: "calls ?w' = perform os f r init (targets f (visited ?w'))"
    using ts by simp
  have fs: "fsys ?w' = replay os (calls ?w') init"
    using a(2) by (simp add: replay_append)
  have z: "zip (?ts @ ?ts') (?rs @ ?rs') = zip ?ts ?rs @ zip ?ts' ?rs'"
    using len by simp
  have "reports pr f r [] (zip (?ts @ ?ts') (?rs @ ?rs')) = out ?w @ ?evs"
    unfolding z reports_append using a(3) by simp
  then have o: "out ?w' = reports pr f r [] (zip (targets f (visited ?w')) (map (\<lambda>c. snd (snd c)) (calls ?w')))"
    using ts by simp
  have n: "?n + length (filter is_Renamed ?evs) = length (filter is_Renamed (out ?w'))"
    using a(4) by simp
  have "faithful os pr f r init (?w', ?n + length (filter is_Renamed ?evs))"
    unfolding faithful_def Let_def fst_conv snd_conv using c fs o n by blast
  with run show ?thesis by simp
qed

text \<open>
  The file systems of a run stay among those of every longer run, so what is listed, reached
  or entered stays so.
\<close>

lemma moment_prefix: "replay os cs fs \<in> set (moments os fs (cs @ cs'))"
proof -
  have "replay os (take (length cs) (cs @ cs')) fs \<in> set (moments os fs (cs @ cs'))"
    unfolding moments_def set_map by (rule imageI) simp
  then show ?thesis by simp
qed

lemma moments_mono: "x \<in> set (moments os fs cs) \<Longrightarrow> x \<in> set (moments os fs (cs @ cs'))"
proof -
  assume "x \<in> set (moments os fs cs)"
  then have "x \<in> (\<lambda>k. replay os (take k cs) fs) ` {0..<Suc (length cs)}"
    unfolding moments_def by (simp only: set_map set_upt)
  then obtain k where "k \<in> {0..<Suc (length cs)}" and x: "x = replay os (take k cs) fs"
    by (rule imageE)
  then have k: "k \<le> length cs" by simp
  have "replay os (take k (cs @ cs')) fs \<in> set (moments os fs (cs @ cs'))"
    unfolding moments_def set_map by (rule imageI) (use k in auto)
  with k x show ?thesis by simp
qed

lemma listed_mono:
  "calls w' = calls w @ cs \<Longrightarrow> listed os fs w e \<Longrightarrow> listed os fs w' e"
  unfolding listed_def by (metis moments_mono)

lemma reached_mono:
  assumes "calls w' = calls w @ cs" and "visited w' = visited w @ vs" and "reached os fs w p"
  shows "reached os fs w' p"
proof -
  from assms(3) obtain x where x: "x \<in> set (moments os fs (calls w))"
      and c: "case scandir os x p of None \<Rightarrow> True | Some l \<Rightarrow> (p, l) \<in> set (visited w)"
    unfolding reached_def by blast
  from x assms(1) have "x \<in> set (moments os fs (calls w'))" by (simp add: moments_mono)
  moreover from c assms(2)
  have "case scandir os x p of None \<Rightarrow> True | Some l \<Rightarrow> (p, l) \<in> set (visited w')"
    by (auto split: option.splits)
  ultimately show ?thesis unfolding reached_def by blast
qed

lemma entered_mono:
  assumes "calls w' = calls w @ cs" and "visited w' = visited w @ vs" and "entered os fs w e"
  shows "entered os fs w' e"
  using assms(3) unfolding entered_def list_all_iff
  by (metis assms(1) assms(2) moments_mono reached_mono)

lemma reached_start:
  assumes "fsys w = replay os (calls w) fs" and "calls w' = calls w @ cs"
    and "case scandir os (fsys w) p of None \<Rightarrow> True | Some l \<Rightarrow> (p, l) \<in> set (visited w')"
  shows "reached os fs w' p"
  unfolding reached_def using assms moment_prefix[of os "calls w" fs cs] by auto

lemma faithful_fsys: "faithful os pr f r init s \<Longrightarrow> fsys (fst s) = replay os (calls (fst s)) init"
  by (simp add: faithful_def Let_def)

lemma fold_raising_closed:
  assumes step: "\<And>d s. d \<in> set ds \<Longrightarrow> faithful os pr f r init s \<Longrightarrow>
        \<exists>s'. g d s = Some (Inr s') \<and> faithful os pr f r init s' \<and> extends os init (fst s) (fst s')
             \<and> reached os init (fst s') (join root d)"
    and "faithful os pr f r init s"
  shows "\<exists>s'. fold_raising g ds s = Some (Inr s') \<and> faithful os pr f r init s'
           \<and> extends os init (fst s) (fst s')
           \<and> list_all (\<lambda>d. reached os init (fst s') (join root d)) ds"
  using assms
proof (induction ds arbitrary: s)
  case Nil
  then show ?case by (simp add: extends_def)
next
  case (Cons d ds)
  from Cons.prems(1)[of d s] Cons.prems(2) obtain s1
    where s1: "g d s = Some (Inr s1)" and f1: "faithful os pr f r init s1"
      and e1: "extends os init (fst s) (fst s1)" and r1: "reached os init (fst s1) (join root d)"
    by auto
  from Cons.IH[of s1] Cons.prems(1) f1 obtain s'
    where s': "fold_raising g ds s1 = Some (Inr s')" and f': "faithful os pr f r init s'"
      and e': "extends os init (fst s1) (fst s')"
      and r': "list_all (\<lambda>d. reached os init (fst s') (join root d)) ds"
    by auto
  from e1 obtain cs1 vs1 where g1: "calls (fst s1) = calls (fst s) @ cs1"
      "visited (fst s1) = visited (fst s) @ vs1"
      "list_all (\<lambda>e. listed os init (fst s1) e \<and> entered os init (fst s1) e) vs1"
    unfolding extends_def by blast
  from e' obtain cs2 vs2 where g2: "calls (fst s') = calls (fst s1) @ cs2"
      "visited (fst s') = visited (fst s1) @ vs2"
      "list_all (\<lambda>e. listed os init (fst s') e \<and> entered os init (fst s') e) vs2"
    unfolding extends_def by blast
  from g1(3) have "list_all (\<lambda>e. listed os init (fst s') e \<and> entered os init (fst s') e) vs1"
    unfolding list_all_iff using listed_mono[OF g2(1)] entered_mono[OF g2(1) g2(2)] by blast
  with g1 g2 have "extends os init (fst s) (fst s')"
    unfolding extends_def by (intro exI[of _ "cs1 @ cs2"] exI[of _ "vs1 @ vs2"]) simp
  moreover from r1 have "reached os init (fst s') (join root d)"
    by (rule reached_mono[OF g2(1) g2(2)])
  ultimately show ?case using s1 s' f' r' by simp
qed

lemma walk_raising_closed:
  assumes pr: "\<And>shown x e. pr shown (RenameError x e) = None"
  shows "shallow os n root \<Longrightarrow> faithful os pr f r init s \<Longrightarrow>
     \<exists>s'. walk_raising n os pr f r root s = Some (Inr s') \<and> faithful os pr f r init s'
          \<and> extends os init (fst s) (fst s') \<and> reached os init (fst s') root
          \<and> (case scandir os (fsys (fst s)) root of
               None \<Rightarrow> s' = s
             | Some l \<Rightarrow> \<exists>vs. visited (fst s') = visited (fst s) @ (root, l) # vs)"
proof (induction n arbitrary: root s)
  case 0
  then show ?case by simp
next
  case (Suc n)
  note fsys = faithful_fsys[OF Suc.prems(2)]
  show ?case
  proof (cases "scandir os (fsys (fst s)) root")
    case None
    have "reached os init (fst s) root"
      by (rule reached_start[OF fsys, of _ "[]"]) (simp_all add: None)
    with None Suc.prems(2) show ?thesis by (simp add: extends_def)
  next
    case (Some entries)
    obtain dirs files where entries: "entries = (dirs, files)" by (cases entries)
    from Suc.prems(1) Some entries have deep: "\<And>d. d \<in> set dirs \<Longrightarrow> shallow os n (join root d)"
      by (auto simp: list_all_iff split: option.splits dest!: spec[of _ "fsys (fst s)"])
    from faithful_rename_in_dir_raising[OF pr Suc.prems(2), of root files dirs] obtain s1 cs1
      where loop: "rename_in_dir_raising os pr f r root files
                 (fst s\<lparr>visited := visited (fst s) @ [(root, dirs, files)]\<rparr>, snd s) = Inr s1"
        and f1: "faithful os pr f r init s1"
        and v1: "visited (fst s1) = visited (fst s) @ [(root, dirs, files)]"
        and c1: "calls (fst s1) = calls (fst s) @ cs1"
      by blast
    let ?into = "filter (\<lambda>d. \<not> islink os (fsys (fst s1)) (join root d)) dirs"
    have "\<exists>s'. fold_raising (\<lambda>d. walk_raising n os pr f r (join root d)) ?into s1 = Some (Inr s')
            \<and> faithful os pr f r init s' \<and> extends os init (fst s1) (fst s')
            \<and> list_all (\<lambda>d. reached os init (fst s') (join root d)) ?into"
    proof (rule fold_raising_closed[OF _ f1])
      fix d t assume "d \<in> set ?into" and "faithful os pr f r init t"
      with Suc.IH[of "join root d" t] deep[of d]
      show "\<exists>s'. walk_raising n os pr f r (join root d) t = Some (Inr s') \<and> faithful os pr f r init s'
             \<and> extends os init (fst t) (fst s') \<and> reached os init (fst s') (join root d)"
        by auto
    qed
    then obtain s' cs2 vs2
      where fold: "fold_raising (\<lambda>d. walk_raising n os pr f r (join root d)) ?into s1 = Some (Inr s')"
        and f': "faithful os pr f r init s'"
        and c2: "calls (fst s') = calls (fst s1) @ cs2"
        and v2: "visited (fst s') = visited (fst s1) @ vs2"
        and cl: "list_all (\<lambda>e. listed os init (fst s') e \<and> entered os init (fst s') e) vs2"
        and re: "list_all (\<lambda>d. reached os init (fst s') (join root d)) ?into"
      unfolding extends_def by blast
    have c': "calls (fst s') = calls (fst s) @ (cs1 @ cs2)" using c1 c2 by simp
    have v': "visited (fst s') = visited (fst s) @ (root, dirs, files) # vs2" using v1 v2 by simp
    have m0: "fsys (fst s) \<in> set (moments os init (calls (fst s')))"
      unfolding c' using moment_prefix[of os "calls (fst s)" init "cs1 @ cs2"] fsys by simp
    have m1: "fsys (fst s1) \<in> set (moments os init (calls (fst s')))"
      unfolding c2 using moment_prefix[of os "calls (fst s1)" init cs2] faithful_fsys[OF f1] by simp
    have li: "listed os init (fst s') (root, dirs, files)"
      unfolding listed_def using m0 Some entries by auto
    have en: "entered os init (fst s') (root, dirs, files)"
      unfolding entered_def list_all_iff
    proof
      fix d assume d: "d \<in> set (fst (snd (root, dirs, files)))"
      show "(\<exists>fs'\<in>set (moments os init (calls (fst s'))). islink os fs' (join (fst (root, dirs, files)) d))
            \<or> reached os init (fst s') (join (fst (root, dirs, files)) d)"
      proof (cases "islink os (fsys (fst s1)) (join root d)")
        case True
        with m1 show ?thesis by auto
      next
        case False
        with d have "d \<in> set ?into" by simp
        with re show ?thesis unfolding list_all_iff by simp
      qed
    qed
    have ex: "extends os init (fst s) (fst s')"
      unfolding extends_def
      by (intro exI[of _ "cs1 @ cs2"] exI[of _ "(root, dirs, files) # vs2"]) (use c' v' li en cl in simp)
    have rr: "reached os init (fst s') root"
      by (rule reached_start[OF fsys c']) (simp add: Some entries v')
    from Some entries loop fold f' ex rr v' show ?thesis by simp
  qed
qed

text \<open>
  The events for the candidates: a rename that failed is reported as such, and only a
  rename that succeeded is reported as a success.
\<close>

lemma reports_nth:
  "i < length xs \<Longrightarrow> snd (xs ! i) = Some e \<Longrightarrow>
     reports pr f r shown xs ! i = RenameError (snd (fst (xs ! i))) e"
proof (induction xs arbitrary: i shown)
  case Nil
  then show ?case by simp
next
  case (Cons x xs)
  then show ?case by (cases i) (simp_all add: report_of_def)
qed

lemma is_Renamed_report_of: "is_Renamed (report_of pr f r shown t res) \<Longrightarrow> res = None"
  by (cases res) (simp_all add: report_of_def is_Renamed_def)

lemma reports_renamed_le:
  "length (filter is_Renamed (reports pr f r shown xs)) \<le> length (filter (\<lambda>x. snd x = None) xs)"
proof (induction xs arbitrary: shown)
  case Nil
  then show ?case by simp
next
  case (Cons x xs)
  from Cons.IH[of "shown @ [report_of pr f r shown (fst x) (snd x)]"]
  show ?case using is_Renamed_report_of[of pr f r shown "fst x" "snd x"] by auto
qed

text \<open>
  When no \<^verbatim>\<open>print\<close> raises, the functions with the exceptions of \<^verbatim>\<open>print\<close> are the
  functions of the section before.
\<close>

lemma rename_in_dir_raising_quiet:
  assumes "\<And>shown e. pr shown e = None"
  shows "rename_in_dir_raising os pr f r root files s = Inr (rename_in_dir os f r root files s)"
proof (induction files arbitrary: s)
  case Nil
  then show ?case by simp
next
  case (Cons x files)
  obtain w n where s: "s = (w, n)" by (cases s)
  have p: "pr (out w) (Renamed x (py_replace x f r)) = None"
    "\<And>e. pr (out w) (RenameError x e) = None"
    by (rule assms)+
  show ?case unfolding s
    by (cases "rename os (fsys w) (join root x) (join root (py_replace x f r))")
       (simp_all add: rename_one_def Let_def p Cons.IH)
qed

lemma fold_raising_quiet:
  assumes "\<And>d s. d \<in> set ds \<Longrightarrow> g d s = map_option Inr (h d s)"
  shows "fold_raising g ds s = map_option Inr (fold_option h ds s)"
  using assms
proof (induction ds arbitrary: s)
  case Nil
  then show ?case by simp
next
  case (Cons d ds)
  then show ?case by (cases "h d s") simp_all
qed

lemma walk_raising_quiet:
  assumes "\<And>shown e. pr shown e = None"
  shows "walk_raising n os pr f r root s = map_option Inr (walk n os f r root s)"
proof (induction n arbitrary: root s)
  case 0
  then show ?case by simp
next
  case (Suc n)
  show ?case
  proof (cases "scandir os (fsys (fst s)) root")
    case None
    then show ?thesis by simp
  next
    case (Some entries)
    obtain dirs files where entries: "entries = (dirs, files)" by (cases entries)
    show ?thesis
      by (simp add: Some entries rename_in_dir_raising_quiet[OF assms] Let_def
            fold_raising_quiet[where h = "\<lambda>d. walk n os f r (join root d)"] Suc.IH)
  qed
qed

lemma rename_files_raising_quiet:
  assumes "\<And>shown e. pr shown e = None"
  shows "rename_files_raising os pr fuel target_dir f r fs =
         map_option Inr (rename_files os fuel target_dir f r fs)"
proof -
  let ?start = "\<lparr>fsys = fs, out = [], calls = [], visited = []\<rparr>"
  have p: "pr [] (DirMissing target_dir) = None" "\<And>w n. pr (out w) (Finished n) = None"
    by (rule assms)+
  show ?thesis
    by (cases "walk fuel os f r target_dir (?start, 0)")
       (auto simp: rename_files_raising_def rename_files_def Let_def walk_raising_quiet[OF assms] p)
qed

lemma rename_files_total:
  assumes "shallow os fuel target_dir"
  shows "\<exists>w. rename_files os fuel target_dir f r fs = Some w"
proof -
  from walk_total[OF assms] obtain s'
    where "walk fuel os f r target_dir (\<lparr>fsys = fs, out = [], calls = [], visited = []\<rparr>, 0) = Some s'"
    by blast
  then show ?thesis by (cases s') (simp add: rename_files_def Let_def)
qed

lemma faithful_start: "faithful os pr f r fs (\<lparr>fsys = fs, out = [], calls = [], visited = []\<rparr>, 0)"
  by (simp add: faithful_def targets_def replay_def)

lemma listed_print: "listed os fs (print e w) x = listed os fs w x"
  by (simp add: listed_def print_def)

lemma entered_print: "entered os fs (print e w) x = entered os fs w x"
  by (simp add: entered_def reached_def print_def cong: option.case_cong)

text \<open>
  The fuel is no part of the result with the exceptions of \<^verbatim>\<open>print\<close> either.
\<close>

lemma fold_raising_mono:
  assumes "\<And>d s a. d \<in> set ds \<Longrightarrow> g d s = Some a \<Longrightarrow> g' d s = Some a"
    and "fold_raising g ds s = Some a"
  shows "fold_raising g' ds s = Some a"
  using assms
proof (induction ds arbitrary: s)
  case Nil
  then show ?case by simp
next
  case (Cons d ds)
  from Cons.prems(2) obtain a1 where a1: "g d s = Some a1"
    by (auto split: option.splits)
  from Cons.prems(1)[of d s a1] a1 have a1': "g' d s = Some a1" by simp
  show ?case
  proof (cases a1)
    case (Inl e)
    with a1 a1' Cons.prems(2) show ?thesis by auto
  next
    case (Inr s1)
    with a1 Cons.prems(2) have rest: "fold_raising g ds s1 = Some a" by simp
    have "fold_raising g' ds s1 = Some a"
      by (rule Cons.IH[OF _ rest]) (use Cons.prems(1) in auto)
    with a1' Inr show ?thesis by simp
  qed
qed

lemma walk_raising_more_fuel:
  "walk_raising n os pr f r root s = Some a \<Longrightarrow> walk_raising (n + k) os pr f r root s = Some a"
proof (induction n arbitrary: root s a)
  case 0
  then show ?case by simp
next
  case (Suc n)
  show ?case
  proof (cases "scandir os (fsys (fst s)) root")
    case None
    with Suc.prems show ?thesis by simp
  next
    case (Some entries)
    obtain dirs files where entries: "entries = (dirs, files)" by (cases entries)
    show ?thesis
    proof (cases "rename_in_dir_raising os pr f r root files
                    (fst s\<lparr>visited := visited (fst s) @ [(root, dirs, files)]\<rparr>, snd s)")
      case (Inl e)
      with Suc.prems Some entries show ?thesis by auto
    next
      case (Inr s1)
      let ?into = "filter (\<lambda>d. \<not> islink os (fsys (fst s1)) (join root d)) dirs"
      from Suc.prems Some entries Inr
      have "fold_raising (\<lambda>d. walk_raising n os pr f r (join root d)) ?into s1 = Some a"
        by simp
      then have "fold_raising (\<lambda>d. walk_raising (n + k) os pr f r (join root d)) ?into s1 = Some a"
        by (rule fold_raising_mono[rotated]) (rule Suc.IH)
      with Some entries Inr show ?thesis by simp
    qed
  qed
qed

lemma rename_files_raising_more_fuel:
  "rename_files_raising os pr fuel target f r fs = Some a \<Longrightarrow>
   rename_files_raising os pr (fuel + k) target f r fs = Some a"
  by (auto simp: rename_files_raising_def Let_def split: option.splits if_splits sum.splits
        dest: walk_raising_more_fuel[where k = k])

lemma success_ascii_printer_error: "success_ascii_printer shown (RenameError x e) = None"
  by (simp add: success_ascii_printer_def is_Renamed_def)

lemma success_ascii_printer_finished: "success_ascii_printer shown (Finished n) = None"
  by (simp add: success_ascii_printer_def is_Renamed_def)

section \<open>The claims\<close>

text \<open>
  C1 as stated says that an empty find token is rejected with a validation error and that no
  rename is attempted. The run below, on a directory with the one file \<^verbatim>\<open>a\<close>, with the
  empty find token and the replace token \<^verbatim>\<open>x\<close>, renames the file to \<^verbatim>\<open>xax\<close>.
\<close>

theorem C1_counterexample:
  "rename_files toy_os 2 ''/d'' [] ''x'' \<lparr>top_files = [''a''], sub_files = []\<rparr> =
     Some \<lparr>fsys = \<lparr>top_files = [''xax''], sub_files = []\<rparr>,
           out = [Renamed ''a'' ''xax'', Finished 1],
           calls = [(''/d/a'', ''/d/xax'', None)],
           visited = [(''/d'', [''a''], [''a'']), (''/d/a'', [], [])]\<rparr>"
  by code_simp

text \<open>
  C1, as amended. The source has no check of the find token. If it is the empty string and the
  target is a directory, the run is not rejected: it ends with its count, every name in the
  \<^verbatim>\<open>files\<close> of every directory the walk yields is a candidate, and for each one
  \<^verbatim>\<open>os.rename\<close> is called, in order, from the name to the name with the replace token
  put in front of every character and behind the last one.
\<close>

theorem C1_empty_find_token:
  assumes "rename_files os fuel target_dir [] replace_char fs = Some w"
    and "isdir os fs target_dir"
  shows "map (\<lambda>c. (fst c, fst (snd c))) (calls w) =
           concat (map (\<lambda>(root, dirs, files).
                     map (\<lambda>x. (join root x,
                               join root (replace_char @ concat (map (\<lambda>c. c # replace_char) x))))
                       files) (visited w))
         \<and> (\<exists>n. last (out w) = Finished n)"
proof -
  from rename_files_result[OF assms] obtain w' n
    where w: "w = print (Finished n) w'" and c: "consistent os [] replace_char fs (w', n)"
    by blast
  from consistent_paths[OF c] w show ?thesis
    by (simp add: targets_empty_paths print_def)
qed

theorem C1_empty_find_token_witness:
  "rename_files toy_os 2 ''/d'' [] ''-'' \<lparr>top_files = [''ab''], sub_files = [''c'']\<rparr> =
     Some \<lparr>fsys = \<lparr>top_files = [''-a-b-''], sub_files = [''-c-'']\<rparr>,
           out = [Renamed ''ab'' ''-a-b-'', Renamed ''c'' ''-c-'', Finished 2],
           calls = [(''/d/ab'', ''/d/-a-b-'', None), (''/d/a/c'', ''/d/a/-c-'', None)],
           visited = [(''/d'', [''a''], [''ab'']), (''/d/a'', [], [''c''])]\<rparr>
   \<and> isdir toy_os \<lparr>top_files = [''ab''], sub_files = [''c'']\<rparr> ''/d''
   \<and> [(''/d/ab'', ''/d/-a-b-''), (''/d/a/c'', ''/d/a/-c-'')] =
       concat (map (\<lambda>(root, dirs, files).
                 map (\<lambda>x. (join root x, join root (''-'' @ concat (map (\<lambda>c. c # ''-'') x)))) files)
               [(''/d'', [''a''], [''ab'']), (''/d/a'', [], [''c''])])"
proof -
  have run: "rename_files toy_os 2 ''/d'' [] ''-'' \<lparr>top_files = [''ab''], sub_files = [''c'']\<rparr> =
     Some \<lparr>fsys = \<lparr>top_files = [''-a-b-''], sub_files = [''-c-'']\<rparr>,
           out = [Renamed ''ab'' ''-a-b-'', Renamed ''c'' ''-c-'', Finished 2],
           calls = [(''/d/ab'', ''/d/-a-b-'', None), (''/d/a/c'', ''/d/a/-c-'', None)],
           visited = [(''/d'', [''a''], [''ab'']), (''/d/a'', [], [''c''])]\<rparr>"
    by code_simp
  have dir: "isdir toy_os \<lparr>top_files = [''ab''], sub_files = [''c'']\<rparr> ''/d''"
    by (simp add: toy_os_def)
  from C1_empty_find_token[OF run dir] run dir show ?thesis by simp
qed

text \<open>
  C2 as stated says that the replacement is idempotent on a name only if the replace token
  does not contain the find token. With both tokens \<^verbatim>\<open>_\<close> the name \<^verbatim>\<open>a_b\<close> contains
  the find token, replacing twice gives what replacing once gives, and the replace token
  contains the find token.
\<close>

theorem C2_counterexample:
  "sublist ''_'' ''a_b'' \<and>
   py_replace (py_replace ''a_b'' ''_'' ''_'') ''_'' ''_'' = py_replace ''a_b'' ''_'' ''_'' \<and>
   sublist ''_'' ''_''"
  by code_simp

text \<open>
  C2, as amended. For a name \<open>s\<close> that contains the find token \<open>f\<close>: if replacing a second
  time changes nothing, then the replace token \<open>r\<close> does not contain the find token, or it
  is the find token itself.
\<close>

theorem C2_idempotent_only_if:
  assumes "sublist f s" and "py_replace (py_replace s f r) f r = py_replace s f r"
  shows "\<not> sublist f r \<or> r = f"
proof (cases "sublist f r")
  case False
  then show ?thesis by simp
next
  case True
  then have le: "length f \<le> length r" by (rule sublist_length_le)
  have "length r = length f"
  proof (rule ccontr)
    assume "length r \<noteq> length f"
    with le have less: "length f < length r" by simp
    show False
    proof (cases "f = []")
      case True
      with less assms(2) have "length (py_replace (py_replace s [] r) [] r) = length (py_replace s [] r)"
        by simp
      with less show False by (simp add: length_py_replace_empty)
    next
      case False
      let ?t = "replace_scan f r s"
      from False assms(1) have "sublist r ?t" by (rule sublist_replace_scan)
      with True have "sublist f ?t" by (auto simp: sublist_def) (metis append.assoc)
      with False less have "length ?t < length (replace_scan f r ?t)"
        by (rule length_replace_scan_less)
      with assms(2) False show False by (simp add: py_replace_def)
    qed
  qed
  with True have "r = f" by (auto simp: sublist_def)
  then show ?thesis by simp
qed

theorem C2_idempotent_only_if_witness:
  "sublist ''ab'' ''xaby'' \<and>
   py_replace (py_replace ''xaby'' ''ab'' ''ab'') ''ab'' ''ab'' = py_replace ''xaby'' ''ab'' ''ab'' \<and>
   sublist ''ab'' ''ab'' \<and> ''ab'' = ''ab''"
proof -
  have h1: "sublist ''ab'' ''xaby''" by code_simp
  have h2: "py_replace (py_replace ''xaby'' ''ab'' ''ab'') ''ab'' ''ab'' = py_replace ''xaby'' ''ab'' ''ab''"
    by code_simp
  from C2_idempotent_only_if[OF h1 h2] h1 h2 show ?thesis by simp
qed

text \<open>
  The converse reading of C2 fails as well: a replace token that does not contain the find
  token does not make the replacement idempotent.
\<close>

lemma replace_not_idempotent:
  "sublist ''ab'' ''abb'' \<and> \<not> sublist ''ab'' ''a'' \<and>
   py_replace ''abb'' ''ab'' ''a'' = ''ab'' \<and> py_replace ''ab'' ''ab'' ''a'' = ''a''"
  by code_simp

text \<open>
  C3 as stated says that the old and the new path of a rename share their parent directory
  for every value of the two tokens. With the replace token \<^verbatim>\<open>/\<close> the file
  \<^verbatim>\<open>a_b.txt\<close> of \<^verbatim>\<open>/d\<close> is renamed to \<^verbatim>\<open>/d/a/b.txt\<close>: it moves from
  \<^verbatim>\<open>/d\<close> into the subdirectory \<^verbatim>\<open>/d/a\<close>, where the walk then finds it.
\<close>

theorem C3_counterexample:
  "rename_files toy_os 2 ''/d'' ''_'' ''/'' \<lparr>top_files = [''a_b.txt''], sub_files = []\<rparr> =
     Some \<lparr>fsys = \<lparr>top_files = [], sub_files = [''b.txt'']\<rparr>,
           out = [Renamed ''a_b.txt'' ''a/b.txt'', Finished 1],
           calls = [(''/d/a_b.txt'', ''/d/a/b.txt'', None)],
           visited = [(''/d'', [''a''], [''a_b.txt'']), (''/d/a'', [], [''b.txt''])]\<rparr>
   \<and> dirname ''/d/a_b.txt'' = ''/d'' \<and> dirname ''/d/a/b.txt'' = ''/d/a''"
  by code_simp

text \<open>
  C3, as amended. When the replace token contains no path separator \<^verbatim>\<open>/\<close> (and, as on
  every file system, no listed file name contains one), the two paths of every
  \<^verbatim>\<open>os.rename\<close> call of a run have the same parent directory.
\<close>

theorem C3_same_parent:
  assumes "rename_files os fuel target_dir find_char replace_char fs = Some w"
    and "CHR ''/'' \<notin> set replace_char"
    and "\<forall>(root, dirs, files) \<in> set (visited w). \<forall>x \<in> set files. CHR ''/'' \<notin> set x"
  shows "\<forall>(old_path, new_path, res) \<in> set (calls w). dirname new_path = dirname old_path"
proof (clarify)
  fix old_path new_path res
  assume "(old_path, new_path, res) \<in> set (calls w)"
  from rename_files_call[OF assms(1) this] obtain root x
    where t: "(root, x) \<in> set (targets find_char (visited w))"
      and old: "old_path = join root x"
      and new: "new_path = join root (py_replace x find_char replace_char)"
    by blast
  from t obtain dirs files where "(root, dirs, files) \<in> set (visited w)" and "x \<in> set files"
    by (auto simp: targets_mem)
  with assms(3) have x: "CHR ''/'' \<notin> set x" by blast
  with assms(2) set_py_replace[of x find_char replace_char]
  have "CHR ''/'' \<notin> set (py_replace x find_char replace_char)" by blast
  with x have "dirname (join root (py_replace x find_char replace_char)) = dirname (join root x)"
    by (rule dirname_join)
  with old new show "dirname new_path = dirname old_path" by simp
qed

theorem C3_same_parent_witness:
  "rename_files toy_os 2 ''/d'' ''_'' '' '' example_fs = Some example_world
   \<and> CHR ''/'' \<notin> set '' ''
   \<and> list_all (\<lambda>(root, dirs, files). list_all (\<lambda>x. CHR ''/'' \<notin> set x) files) (visited example_world)
   \<and> list_all (\<lambda>(old_path, new_path, res). dirname new_path = dirname old_path) (calls example_world)
   \<and> dirname ''/d/a b.txt'' = dirname ''/d/a_b.txt''
   \<and> dirname ''/d/a/c d.txt'' = dirname ''/d/a/c_d.txt''"
proof -
  have sep: "CHR ''/'' \<notin> set '' ''" by simp
  have names: "\<forall>(root, dirs, files) \<in> set (visited example_world). \<forall>x \<in> set files. CHR ''/'' \<notin> set x"
    by (simp add: example_world_def)
  have same: "\<forall>(old_path, new_path, res) \<in> set (calls example_world). dirname new_path = dirname old_path"
    using example_run sep names by (rule C3_same_parent)
  from names have "list_all (\<lambda>(root, dirs, files). list_all (\<lambda>x. CHR ''/'' \<notin> set x) files) (visited example_world)"
    by (simp add: list_all_iff case_prod_beta)
  moreover from same have "list_all (\<lambda>(old_path, new_path, res). dirname new_path = dirname old_path) (calls example_world)"
    by (simp add: list_all_iff case_prod_beta)
  moreover from same have "dirname ''/d/a b.txt'' = dirname ''/d/a_b.txt''"
    and "dirname ''/d/a/c d.txt'' = dirname ''/d/a/c_d.txt''"
    by (simp_all add: example_world_def)
  ultimately show ?thesis using example_run sep by simp
qed

text \<open>
  C4. For a non-empty find token (the specification sets the empty one apart as degenerate),
  every \<^verbatim>\<open>os.rename\<close> call of a run is made for a file name \<open>x\<close> that contains the find
  token, from \<open>x\<close> in its directory to \<open>y\<close> in the same \<^verbatim>\<open>root\<close>, where \<open>y\<close> is \<open>x\<close> with
  every non-overlapping occurrence of the find token replaced, scanning from the left; there
  is one such \<open>y\<close> only; and a successful call is printed with these two names.
\<close>

theorem C4_new_name:
  assumes "rename_files os fuel target_dir find_char replace_char fs = Some w"
    and "find_char \<noteq> []"
  shows "\<forall>(old_path, new_path, res) \<in> set (calls w).
           \<exists>root x y. sublist find_char x \<and> old_path = join root x \<and> new_path = join root y
             \<and> replaced find_char replace_char x y
             \<and> (\<forall>y'. replaced find_char replace_char x y' \<longrightarrow> y' = y)
             \<and> (res = None \<longrightarrow> Renamed x y \<in> set (out w))"
proof (clarify)
  fix old_path new_path res
  assume "(old_path, new_path, res) \<in> set (calls w)"
  from rename_files_call[OF assms(1) this] obtain root x
    where t: "(root, x) \<in> set (targets find_char (visited w))"
      and old: "old_path = join root x"
      and new: "new_path = join root (py_replace x find_char replace_char)"
      and ev: "event_of find_char replace_char (root, x) res \<in> set (out w)"
    by blast
  let ?y = "py_replace x find_char replace_char"
  from t have "sublist find_char x" by (auto simp: targets_mem)
  moreover have "replaced find_char replace_char x ?y"
    using assms(2) by (simp add: replaced_iff)
  moreover have "\<forall>y'. replaced find_char replace_char x y' \<longrightarrow> y' = ?y"
    using assms(2) by (simp add: replaced_iff)
  moreover from ev have "res = None \<longrightarrow> Renamed x ?y \<in> set (out w)"
    by (auto simp: event_of_def)
  ultimately show "\<exists>root x y. sublist find_char x \<and> old_path = join root x \<and> new_path = join root y
             \<and> replaced find_char replace_char x y
             \<and> (\<forall>y'. replaced find_char replace_char x y' \<longrightarrow> y' = y)
             \<and> (res = None \<longrightarrow> Renamed x y \<in> set (out w))"
    using old new by blast
qed

theorem C4_new_name_witness:
  "rename_files toy_os 2 ''/d'' ''_'' '' '' example_fs = Some example_world
   \<and> ''_'' \<noteq> []
   \<and> list_all (\<lambda>(old_path, new_path, res).
           \<exists>root x y. sublist ''_'' x \<and> old_path = join root x \<and> new_path = join root y
             \<and> replaced ''_'' '' '' x y
             \<and> (\<forall>y'. replaced ''_'' '' '' x y' \<longrightarrow> y' = y)
             \<and> (res = None \<longrightarrow> Renamed x y \<in> set (out example_world)))
        (calls example_world)"
proof -
  have ne: "''_'' \<noteq> []" by simp
  from C4_new_name[OF example_run ne] example_run ne show ?thesis
    by (simp add: list_all_iff case_prod_beta)
qed



text \<open>
  C6. If the target root does not exist or is not a directory, \<^verbatim>\<open>rename_files\<close> makes
  no rename call and leaves the file system as it is, prints that the directory does not
  exist, and returns at once: no directory is scanned, whatever the fuel, even none.
\<close>

theorem C6_missing_directory:
  "\<not> isdir os fs target_dir \<Longrightarrow>
     rename_files os fuel target_dir find_char replace_char fs =
       Some \<lparr>fsys = fs, out = [DirMissing target_dir], calls = [], visited = []\<rparr>"
  by (simp add: rename_files_def print_def)

theorem C6_missing_directory_witness:
  "\<not> isdir toy_os \<lparr>top_files = [''a_b.txt''], sub_files = []\<rparr> ''/nowhere'' \<and>
   rename_files toy_os 0 ''/nowhere'' ''_'' '' '' \<lparr>top_files = [''a_b.txt''], sub_files = []\<rparr> =
     Some \<lparr>fsys = \<lparr>top_files = [''a_b.txt''], sub_files = []\<rparr>,
           out = [DirMissing ''/nowhere''], calls = [], visited = []\<rparr>"
proof -
  have h: "\<not> isdir toy_os \<lparr>top_files = [''a_b.txt''], sub_files = []\<rparr> ''/nowhere''"
    by (simp add: toy_os_def)
  from h C6_missing_directory[OF h] show ?thesis by simp
qed

text \<open>
  C7 as stated says that a failure to rename one file never aborts the run and that every
  remaining file is still processed. The \<^verbatim>\<open>print\<close> of the handler (line 28) stands outside
  the \<^verbatim>\<open>try\<close>. In the run below the directory cannot be written, the standard output
  takes ASCII only, and the name of the first file starts with the letter e with an acute
  accent; find \<^verbatim>\<open>_\<close>, replace with a space. The rename of the first file is refused; the
  report of that failure cannot be encoded, and its exception ends the run: nothing has been
  printed, no count is reported, and the second file is never tried.
\<close>

theorem C7_counterexample:
  "rename_files_raising readonly_os ascii_printer 2 ''/d'' ''_'' '' ''
       \<lparr>top_files = [CHR 0xE9 # ''_a'', ''b_c''], sub_files = []\<rparr> =
     Some (Inl (''codec cannot encode character'',
       \<lparr>fsys = \<lparr>top_files = [CHR 0xE9 # ''_a'', ''b_c''], sub_files = []\<rparr>,
        out = [],
        calls = [(''/d/'' @ CHR 0xE9 # ''_a'', ''/d/'' @ CHR 0xE9 # '' a'', Some ''Permission denied'')],
        visited = [(''/d'', [''a''], [CHR 0xE9 # ''_a'', ''b_c''])]\<rparr>))"
  by code_simp

text \<open>
  C7, as amended. On a tree of bounded depth, when the report of a failure and the final count
  can be printed, the run over a directory ends with its count, whatever the outcome of each
  \<^verbatim>\<open>os.rename\<close>. The calls are what the operating system answers when every candidate
  file of every yielded directory is renamed in the order of the walk, each in the file system
  the calls before it have left, also behind a call that failed. A call that failed is
  printed with the name of the file and the message of the exception. The count printed at
  the end is the number of successes printed, so it leaves out every call that failed (and a
  call that succeeded when its success could not be printed: that exception is caught and
  reported in its place). The walk starts with the scan of the target directory, and every
  yielded triple is the scan of its directory and has each of its \<^verbatim>\<open>dirs\<close> entered: a
  symbolic link, a directory whose scan fails, or a directory whose scan is yielded too.
\<close>

theorem C7_failures_isolated:
  assumes "shallow os fuel target_dir" and "isdir os fs target_dir"
    and "\<forall>shown x e. pr shown (RenameError x e) = None"
    and "\<forall>shown n. pr shown (Finished n) = None"
  shows "\<exists>w. rename_files_raising os pr fuel target_dir find_char replace_char fs = Some (Inr w) \<and>
     (let ts = targets find_char (visited w);
          rs = map (\<lambda>c. snd (snd c)) (calls w);
          evs = reports pr find_char replace_char [] (zip ts rs)
      in calls w = perform os find_char replace_char fs ts
         \<and> fsys w = replay os (calls w) fs
         \<and> out w = evs @ [Finished (length (filter is_Renamed evs))]
         \<and> (\<forall>i < length ts. \<forall>e. rs ! i = Some e \<longrightarrow> evs ! i = RenameError (snd (ts ! i)) e)
         \<and> length (filter is_Renamed evs) \<le> length (filter (\<lambda>x. x = None) rs)
         \<and> (case scandir os fs target_dir of
               None \<Rightarrow> visited w = []
             | Some l \<Rightarrow> \<exists>vs. visited w = (target_dir, l) # vs)
         \<and> list_all (\<lambda>e. listed os fs w e \<and> entered os fs w e) (visited w))"
proof -
  let ?start = "\<lparr>fsys = fs, out = [], calls = [], visited = []\<rparr>"
  let ?f = find_char and ?r = replace_char
  from assms(3) have pr: "\<And>shown x e. pr shown (RenameError x e) = None" by simp
  have "\<exists>s'. walk_raising fuel os pr ?f ?r target_dir (?start, 0) = Some (Inr s')
          \<and> faithful os pr ?f ?r fs s'
          \<and> extends os fs (fst (?start, 0 :: nat)) (fst s') \<and> reached os fs (fst s') target_dir
          \<and> (case scandir os (fsys (fst (?start, 0 :: nat))) target_dir of
               None \<Rightarrow> s' = (?start, 0)
             | Some l \<Rightarrow> \<exists>vs. visited (fst s') = visited (fst (?start, 0 :: nat)) @ (target_dir, l) # vs)"
    using pr assms(1) faithful_start by (rule walk_raising_closed)
  then obtain s' where walk: "walk_raising fuel os pr ?f ?r target_dir (?start, 0) = Some (Inr s')"
    and fa: "faithful os pr ?f ?r fs s'"
    and ex: "extends os fs (fst (?start, 0 :: nat)) (fst s')"
    and st: "case scandir os (fsys (fst (?start, 0 :: nat))) target_dir of
               None \<Rightarrow> s' = (?start, 0)
             | Some l \<Rightarrow> \<exists>vs. visited (fst s') = visited (fst (?start, 0 :: nat)) @ (target_dir, l) # vs"
    by blast
  obtain w' n where s': "s' = (w', n)" by (cases s')
  let ?w = "print (Finished n) w'"
  let ?ts = "targets ?f (visited w')"
  let ?rs = "map (\<lambda>c. snd (snd c)) (calls w')"
  let ?evs = "reports pr ?f ?r [] (zip ?ts ?rs)"
  from assms(2) assms(4) walk s'
  have run: "rename_files_raising os pr fuel target_dir ?f ?r fs = Some (Inr ?w)"
    by (simp add: rename_files_raising_def)
  from fa s' have c: "calls w' = perform os ?f ?r fs ?ts" and fsys: "fsys w' = replay os (calls w') fs"
    and out: "out w' = ?evs" and n: "n = length (filter is_Renamed ?evs)"
    by (simp_all add: faithful_def Let_def)
  have len: "length ?rs = length ?ts" using c length_perform[of os ?f ?r fs ?ts] by simp
  have rec: "\<forall>i < length ?ts. \<forall>e. ?rs ! i = Some e \<longrightarrow> ?evs ! i = RenameError (snd (?ts ! i)) e"
  proof (intro allI impI)
    fix i e assume i: "i < length ?ts" and e: "?rs ! i = Some e"
    from i len have "i < length (zip ?ts ?rs)" by simp
    moreover from i len e have "snd (zip ?ts ?rs ! i) = Some e" by simp
    ultimately have "?evs ! i = RenameError (snd (fst (zip ?ts ?rs ! i))) e"
      by (rule reports_nth)
    with i len show "?evs ! i = RenameError (snd (?ts ! i)) e" by simp
  qed
  have "length (filter (\<lambda>x. snd x = None) (zip ?ts ?rs)) = length (filter (\<lambda>x. x = None) (map snd (zip ?ts ?rs)))"
    by (simp add: filter_map comp_def)
  also have "map snd (zip ?ts ?rs) = ?rs" using len by simp
  finally have le: "length (filter is_Renamed ?evs) \<le> length (filter (\<lambda>x. x = None) ?rs)"
    using reports_renamed_le[of pr ?f ?r "[]" "zip ?ts ?rs"] by simp
  from st s' have first: "case scandir os fs target_dir of None \<Rightarrow> visited w' = []
             | Some l \<Rightarrow> \<exists>vs. visited w' = (target_dir, l) # vs"
    by (auto split: option.splits)
  from ex s' have "list_all (\<lambda>e. listed os fs w' e \<and> entered os fs w' e) (visited w')"
    by (auto simp: extends_def)
  then have cl: "list_all (\<lambda>e. listed os fs w' e \<and> entered os fs w' e) (visited w')" .
  have pw: "calls ?w = calls w'" "visited ?w = visited w'" "fsys ?w = fsys w'"
    "out ?w = out w' @ [Finished n]"
    by (simp_all add: print_def)
  have o: "out w' @ [Finished n] = ?evs @ [Finished (length (filter is_Renamed ?evs))]"
    using out n by simp
  have "let ts = targets ?f (visited ?w);
          rs = map (\<lambda>c. snd (snd c)) (calls ?w);
          evs = reports pr ?f ?r [] (zip ts rs)
      in calls ?w = perform os ?f ?r fs ts
         \<and> fsys ?w = replay os (calls ?w) fs
         \<and> out ?w = evs @ [Finished (length (filter is_Renamed evs))]
         \<and> (\<forall>i < length ts. \<forall>e. rs ! i = Some e \<longrightarrow> evs ! i = RenameError (snd (ts ! i)) e)
         \<and> length (filter is_Renamed evs) \<le> length (filter (\<lambda>x. x = None) rs)
         \<and> (case scandir os fs target_dir of
               None \<Rightarrow> visited ?w = []
             | Some l \<Rightarrow> \<exists>vs. visited ?w = (target_dir, l) # vs)
         \<and> list_all (\<lambda>e. listed os fs ?w e \<and> entered os fs ?w e) (visited ?w)"
    unfolding Let_def pw listed_print entered_print
    using c fsys o rec le first cl by (intro conjI) assumption+
  with run show ?thesis by blast
qed

theorem C7_failures_isolated_witness:
  "shallow toy_os 2 ''/d''
   \<and> isdir toy_os \<lparr>top_files = [''a_'', CHR 0xE9 # ''_b'', ''c_d''], sub_files = [''d_'']\<rparr> ''/d''
   \<and> (\<forall>shown x e. success_ascii_printer shown (RenameError x e) = None)
   \<and> (\<forall>shown n. success_ascii_printer shown (Finished n) = None)
   \<and> (\<exists>w. rename_files_raising toy_os success_ascii_printer 2 ''/d'' ''_'' []
              \<lparr>top_files = [''a_'', CHR 0xE9 # ''_b'', ''c_d''], sub_files = [''d_'']\<rparr> = Some (Inr w) \<and>
     (let ts = targets ''_'' (visited w);
          rs = map (\<lambda>c. snd (snd c)) (calls w);
          evs = reports success_ascii_printer ''_'' [] [] (zip ts rs)
      in calls w = perform toy_os ''_'' []
                     \<lparr>top_files = [''a_'', CHR 0xE9 # ''_b'', ''c_d''], sub_files = [''d_'']\<rparr> ts
         \<and> fsys w = replay toy_os (calls w)
                     \<lparr>top_files = [''a_'', CHR 0xE9 # ''_b'', ''c_d''], sub_files = [''d_'']\<rparr>
         \<and> out w = evs @ [Finished (length (filter is_Renamed evs))]
         \<and> (\<forall>i < length ts. \<forall>e. rs ! i = Some e \<longrightarrow> evs ! i = RenameError (snd (ts ! i)) e)
         \<and> length (filter is_Renamed evs) \<le> length (filter (\<lambda>x. x = None) rs)
         \<and> (case scandir toy_os \<lparr>top_files = [''a_'', CHR 0xE9 # ''_b'', ''c_d''], sub_files = [''d_'']\<rparr> ''/d'' of
               None \<Rightarrow> visited w = []
             | Some l \<Rightarrow> \<exists>vs. visited w = (''/d'', l) # vs)
         \<and> list_all (\<lambda>e. listed toy_os \<lparr>top_files = [''a_'', CHR 0xE9 # ''_b'', ''c_d''], sub_files = [''d_'']\<rparr> w e
                         \<and> entered toy_os \<lparr>top_files = [''a_'', CHR 0xE9 # ''_b'', ''c_d''], sub_files = [''d_'']\<rparr> w e)
              (visited w)))
   \<and> rename_files_raising toy_os success_ascii_printer 2 ''/d'' ''_'' []
        \<lparr>top_files = [''a_'', CHR 0xE9 # ''_b'', ''c_d''], sub_files = [''d_'']\<rparr> =
        Some (Inr \<lparr>fsys = \<lparr>top_files = [''a_'', [CHR 0xE9, CHR ''b''], ''cd''], sub_files = [''d'']\<rparr>,
              out = [RenameError ''a_'' ''Is a directory'',
                     RenameError (CHR 0xE9 # ''_b'') ''codec cannot encode character'',
                     Renamed ''c_d'' ''cd'', Renamed ''d_'' ''d'', Finished 2],
              calls = [(''/d/a_'', ''/d/a'', Some ''Is a directory''),
                       (''/d/'' @ CHR 0xE9 # ''_b'', ''/d/'' @ [CHR 0xE9, CHR ''b''], None),
                       (''/d/c_d'', ''/d/cd'', None),
                       (''/d/a/d_'', ''/d/a/d'', None)],
              visited = [(''/d'', [''a''], [''a_'', CHR 0xE9 # ''_b'', ''c_d'']), (''/d/a'', [], [''d_''])]\<rparr>)"
proof -
  let ?fs = "\<lparr>top_files = [''a_'', CHR 0xE9 # ''_b'', ''c_d''], sub_files = [''d_'']\<rparr>"
  have h1: "\<forall>shown x e. success_ascii_printer shown (RenameError x e) = None"
    by (simp add: success_ascii_printer_error)
  have h2: "\<forall>shown n. success_ascii_printer shown (Finished n) = None"
    by (simp add: success_ascii_printer_finished)
  have run: "rename_files_raising toy_os success_ascii_printer 2 ''/d'' ''_'' [] ?fs =
        Some (Inr \<lparr>fsys = \<lparr>top_files = [''a_'', [CHR 0xE9, CHR ''b''], ''cd''], sub_files = [''d'']\<rparr>,
              out = [RenameError ''a_'' ''Is a directory'',
                     RenameError (CHR 0xE9 # ''_b'') ''codec cannot encode character'',
                     Renamed ''c_d'' ''cd'', Renamed ''d_'' ''d'', Finished 2],
              calls = [(''/d/a_'', ''/d/a'', Some ''Is a directory''),
                       (''/d/'' @ CHR 0xE9 # ''_b'', ''/d/'' @ [CHR 0xE9, CHR ''b''], None),
                       (''/d/c_d'', ''/d/cd'', None),
                       (''/d/a/d_'', ''/d/a/d'', None)],
              visited = [(''/d'', [''a''], [''a_'', CHR 0xE9 # ''_b'', ''c_d'']), (''/d/a'', [], [''d_''])]\<rparr>)"
    by code_simp
  note inst = C7_failures_isolated[where os = toy_os and pr = success_ascii_printer and fs = "?fs"
      and find_char = "''_''" and replace_char = "[]", OF shallow_toy isdir_toy h1 h2]
  from inst run shallow_toy isdir_toy[of "?fs"] h1 h2
  show ?thesis by (intro conjI)
qed

text \<open>
  C8. When the prompt for the confirmation gets an answer: \<^verbatim>\<open>rename_files\<close> is called
  exactly when the answer is \<^verbatim>\<open>y\<close> or \<^verbatim>\<open>Y\<close>; for every other answer the run ends with
  the message that the operation is cancelled, with no rename call, no scan and the file
  system as it was. The message is printed in no other run.
\<close>

theorem C8_confirmation:
  assumes "asked a < length stdin"
  shows "main os fuel a stdin fs =
           (if stdin ! asked a = ''y'' \<or> stdin ! asked a = ''Y''
            then map_option (\<lambda>w. Inr (w\<lparr>out := dialogue os a stdin @ out w\<rparr>))
                   (rename_files os fuel (abspath os (raw_target a stdin))
                      (find_token a stdin) (replace_token a stdin) fs)
            else Some (Inr \<lparr>fsys = fs, out = dialogue os a stdin @ [Cancelled],
                            calls = [], visited = []\<rparr>))
       \<and> (\<forall>w. main os fuel a stdin fs = Some (Inr w) \<longrightarrow>
             (Cancelled \<in> set (out w)) = (\<not> (stdin ! asked a = ''y'' \<or> stdin ! asked a = ''Y'')))"
proof
  show eq: "main os fuel a stdin fs =
           (if stdin ! asked a = ''y'' \<or> stdin ! asked a = ''Y''
            then map_option (\<lambda>w. Inr (w\<lparr>out := dialogue os a stdin @ out w\<rparr>))
                   (rename_files os fuel (abspath os (raw_target a stdin))
                      (find_token a stdin) (replace_token a stdin) fs)
            else Some (Inr \<lparr>fsys = fs, out = dialogue os a stdin @ [Cancelled],
                            calls = [], visited = []\<rparr>))"
    using main_eq[OF assms, of os fuel fs] by (simp add: py_lower_y)
  show "\<forall>w. main os fuel a stdin fs = Some (Inr w) \<longrightarrow>
             (Cancelled \<in> set (out w)) = (\<not> (stdin ! asked a = ''y'' \<or> stdin ! asked a = ''Y''))"
  proof (intro allI impI)
    fix w
    assume m: "main os fuel a stdin fs = Some (Inr w)"
    show "(Cancelled \<in> set (out w)) = (\<not> (stdin ! asked a = ''y'' \<or> stdin ! asked a = ''Y''))"
    proof (cases "stdin ! asked a = ''y'' \<or> stdin ! asked a = ''Y''")
      case True
      with m eq obtain w' where
        run: "rename_files os fuel (abspath os (raw_target a stdin))
                (find_token a stdin) (replace_token a stdin) fs = Some w'"
        and w: "w = w'\<lparr>out := dialogue os a stdin @ out w'\<rparr>"
        by auto
      from rename_files_not_cancelled[OF run] w True show ?thesis
        by (simp add: dialogue_not_cancelled)
    next
      case False
      with m eq have "w = \<lparr>fsys = fs, out = dialogue os a stdin @ [Cancelled], calls = [], visited = []\<rparr>"
        by simp
      with False show ?thesis by simp
    qed
  qed
qed

theorem C8_confirmation_witness:
  "asked \<lparr>arg_directory = Some ''/d'', arg_find = Some ''_'', arg_replace = None\<rparr> < length ['' '', ''yes'']
   \<and> main toy_os 2 \<lparr>arg_directory = Some ''/d'', arg_find = Some ''_'', arg_replace = None\<rparr>
        ['' '', ''yes''] example_fs =
       Some (Inr \<lparr>fsys = example_fs,
                  out = [Prompt ''Enter replacement character(s) (e.g. space): '',
                         Config ''/d'' ''_'' '' '',
                         Prompt (CHR 0x0A # ''Proceed? (y/n): ''), Cancelled],
                  calls = [], visited = []\<rparr>)
   \<and> main toy_os 2 \<lparr>arg_directory = Some ''/d'', arg_find = Some ''_'', arg_replace = None\<rparr>
        ['' '', ''Y''] example_fs =
       Some (Inr (example_world\<lparr>out :=
                  [Prompt ''Enter replacement character(s) (e.g. space): '',
                   Config ''/d'' ''_'' '' '',
                   Prompt (CHR 0x0A # ''Proceed? (y/n): '')] @ out example_world\<rparr>))"
proof -
  let ?a = "\<lparr>arg_directory = Some ''/d'', arg_find = Some ''_'', arg_replace = None\<rparr>"
  have k: "asked ?a = 1" by (simp add: asked_def)
  have h1: "asked ?a < length ['' '', ''yes'']" and h2: "asked ?a < length ['' '', ''Y'']"
    by (simp_all add: k)
  have d: "\<And>l. dialogue toy_os ?a ['' '', l] =
      [Prompt ''Enter replacement character(s) (e.g. space): '', Config ''/d'' ''_'' '' '',
       Prompt (CHR 0x0A # ''Proceed? (y/n): '')]"
    by (simp add: dialogue_def raw_target_def find_token_def replace_token_def)
       code_simp
  have t: "\<And>l. abspath toy_os (raw_target ?a ['' '', l]) = ''/d''"
    by (simp add: raw_target_def) code_simp
  have f: "\<And>l. find_token ?a ['' '', l] = ''_''" "\<And>l. replace_token ?a ['' '', l] = '' ''"
    by (simp_all add: find_token_def replace_token_def)
  from C8_confirmation[OF h1, of toy_os 2 example_fs] C8_confirmation[OF h2, of toy_os 2 example_fs]
    h1 example_run
  show ?thesis by (simp add: k d t f)
qed

text \<open>
  C9 as stated says that a target path given on the command line loses its surrounding quotes
  as well. Given the argument \<^verbatim>\<open>"/d"\<close> with the quotes in it, \<^verbatim>\<open>main\<close> keeps them: the
  path does not start with a slash, so it is taken relative to the working directory
  \<^verbatim>\<open>/home/u\<close>, and \<^verbatim>\<open>rename_files\<close> finds no such directory, though \<^verbatim>\<open>/d\<close> exists.
\<close>

theorem C9_counterexample:
  "main toy_os 2
     \<lparr>arg_directory = Some ([CHR 0x22] @ ''/d'' @ [CHR 0x22]), arg_find = Some ''_'', arg_replace = Some '' ''\<rparr>
     [''y''] example_fs =
   Some (Inr \<lparr>fsys = example_fs,
              out = [Config (''/home/u/'' @ [CHR 0x22] @ ''/d'' @ [CHR 0x22]) ''_'' '' '',
                     Prompt (CHR 0x0A # ''Proceed? (y/n): ''),
                     DirMissing (''/home/u/'' @ [CHR 0x22] @ ''/d'' @ [CHR 0x22])],
              calls = [], visited = []\<rparr>)
   \<and> isdir toy_os example_fs ''/d''"
  by code_simp

text \<open>
  C9, as amended. When the prompt for the confirmation gets an answer, the directory that
  \<^verbatim>\<open>main\<close> shows in the configuration and hands to \<^verbatim>\<open>rename_files\<close> is the absolute form
  (\<^verbatim>\<open>os.path.abspath\<close>) of: the command-line argument as it is, quotes included, when there is
  one and it is not empty; otherwise of the first line of the input, stripped of surrounding
  whitespace and then of one pair of surrounding matching quote characters. With an absolute
  working directory that path starts with a slash.
\<close>

theorem C9_target_path:
  assumes "asked a < length stdin"
    and "T = abspath os (if arg_directory a = None \<or> arg_directory a = Some []
                         then unquote (py_strip (hd stdin)) else the (arg_directory a))"
  shows "(\<exists>shown f r. Config T f r \<in> set shown \<and>
            main os fuel a stdin fs =
              (if py_lower (stdin ! asked a) \<noteq> ''y''
               then Some (Inr \<lparr>fsys = fs, out = shown @ [Cancelled], calls = [], visited = []\<rparr>)
               else map_option (\<lambda>w. Inr (w\<lparr>out := shown @ out w\<rparr>))
                      (rename_files os fuel T f r fs)))
       \<and> (prefix ''/'' (getcwd os) \<longrightarrow> prefix ''/'' T)"
proof
  have "T = abspath os (raw_target a stdin)"
    unfolding assms(2) by (cases "arg_directory a") (simp_all add: raw_target_def)
  with main_eq[OF assms(1), of os fuel fs] dialogue_config[of os a stdin]
  show "\<exists>shown f r. Config T f r \<in> set shown \<and>
            main os fuel a stdin fs =
              (if py_lower (stdin ! asked a) \<noteq> ''y''
               then Some (Inr \<lparr>fsys = fs, out = shown @ [Cancelled], calls = [], visited = []\<rparr>)
               else map_option (\<lambda>w. Inr (w\<lparr>out := shown @ out w\<rparr>))
                      (rename_files os fuel T f r fs))"
    by (intro exI[of _ "dialogue os a stdin"] exI[of _ "find_token a stdin"]
          exI[of _ "replace_token a stdin"]) simp
  show "prefix ''/'' (getcwd os) \<longrightarrow> prefix ''/'' T"
    unfolding assms(2) by (simp add: abspath_absolute)
qed

theorem C9_target_path_witness:
  "asked \<lparr>arg_directory = None, arg_find = Some ''_'', arg_replace = Some '' ''\<rparr>
     < length ['' '' @ [CHR 0x22] @ ''/d/a/..'' @ [CHR 0x22] @ ''  '', ''y'']
   \<and> ''/d'' = abspath toy_os
        (if arg_directory \<lparr>arg_directory = None, arg_find = Some ''_'', arg_replace = Some '' ''\<rparr> = None
            \<or> arg_directory \<lparr>arg_directory = None, arg_find = Some ''_'', arg_replace = Some '' ''\<rparr> = Some []
         then unquote (py_strip (hd ['' '' @ [CHR 0x22] @ ''/d/a/..'' @ [CHR 0x22] @ ''  '', ''y'']))
         else the (arg_directory \<lparr>arg_directory = None, arg_find = Some ''_'', arg_replace = Some '' ''\<rparr>))
   \<and> (\<exists>shown f r. Config ''/d'' f r \<in> set shown \<and>
          main toy_os 2 \<lparr>arg_directory = None, arg_find = Some ''_'', arg_replace = Some '' ''\<rparr>
            ['' '' @ [CHR 0x22] @ ''/d/a/..'' @ [CHR 0x22] @ ''  '', ''y''] example_fs =
            (if py_lower ([('' '' @ [CHR 0x22] @ ''/d/a/..'' @ [CHR 0x22] @ ''  ''), ''y'']
                           ! asked \<lparr>arg_directory = None, arg_find = Some ''_'', arg_replace = Some '' ''\<rparr>) \<noteq> ''y''
             then Some (Inr \<lparr>fsys = example_fs, out = shown @ [Cancelled], calls = [], visited = []\<rparr>)
             else map_option (\<lambda>w. Inr (w\<lparr>out := shown @ out w\<rparr>))
                    (rename_files toy_os 2 ''/d'' f r example_fs)))
   \<and> prefix ''/'' (getcwd toy_os) \<and> prefix ''/'' ''/d''"
proof -
  let ?a = "\<lparr>arg_directory = None, arg_find = Some ''_'', arg_replace = Some '' ''\<rparr>"
  let ?in = "['' '' @ [CHR 0x22] @ ''/d/a/..'' @ [CHR 0x22] @ ''  '', ''y'']"
  have h1: "asked ?a < length ?in" by (simp add: asked_def)
  have h2: "''/d'' = abspath toy_os
        (if arg_directory ?a = None \<or> arg_directory ?a = Some []
         then unquote (py_strip (hd ?in)) else the (arg_directory ?a))"
    by code_simp
  have cwd: "prefix ''/'' (getcwd toy_os)" by (simp add: toy_os_def)
  from C9_target_path[OF h1 h2, of 2 example_fs] h1 h2 cwd show ?thesis by blast
qed



end
